theory Spec2Isabelle
  imports
    Complex_Main
    "HOL-Library.Log_Nat"
    "HOL-Library.Char_ord"
    "HOL-Library.List_Lexorder"
begin

section \<open>The Python values the scripts compute with\<close>

text \<open>
  The three scripts (\<^verbatim>\<open>compress_images.py\<close>, \<^verbatim>\<open>compress_ultra.py\<close>,
  \<^verbatim>\<open>rename_images.py\<close>) are embedded function by function.  Python integers are
  \<^typ>\<open>int\<close>, strings are \<^typ>\<open>string\<close>, exceptions are values of \<open>exn\<close> and a
  computation that may raise returns \<open>exn + 'a\<close> (\<open>Inl\<close> is the raised exception).

  \<open>except Exception\<close> catches every exception class derived from \<open>Exception\<close>;
  \<open>KeyboardInterrupt\<close> derives from \<open>BaseException\<close> only and passes through such a
  handler.
\<close>

datatype exn =
    Exception string
  | KeyboardInterrupt

definition bind :: "exn + 'a \<Rightarrow> ('a \<Rightarrow> exn + 'b) \<Rightarrow> exn + 'b" where
  "bind m f = (case m of Inl e \<Rightarrow> Inl e | Inr x \<Rightarrow> f x)"

subsection \<open>Floating point\<close>

text \<open>
  A Python \<open>float\<close> is an IEEE 754 binary64 number.  A finite float is modelled by the
  rational number it denotes.  \<open>round_double x\<close> is the float nearest to the rational
  \<open>x\<close> (ties to the even significand, 53 significant bits, least exponent \<open>-1022\<close>,
  subnormal numbers below it); it is \<open>None\<close> when the rounded magnitude reaches
  \<open>2 ^ 1024\<close>, which no finite float denotes.
\<close>

definition round_half_even :: "rat \<Rightarrow> int" where
  "round_half_even m =
     (let f = \<lfloor>m\<rfloor>; r = m - of_int f
      in if r < 1 / 2 then f
         else if 1 / 2 < r then f + 1
         else if even f then f else f + 1)"

definition ilog2 :: "rat \<Rightarrow> int" where
  "ilog2 x =
     (let (p, q) = quotient_of x; e0 = bitlen p - bitlen q
      in if 2 powi e0 \<le> x then e0 else e0 - 1)"

definition round_double :: "rat \<Rightarrow> rat option" where
  "round_double x =
     (if x = 0 then Some 0
      else let ax = \<bar>x\<bar>;
               e = max (ilog2 ax) (- 1022);
               n = round_half_even (ax / 2 powi (e - 52))
           in if 1024 \<le> e \<or> (e = 1023 \<and> 2 ^ 53 \<le> n) then None
              else Some (sgn x * (of_int n * 2 powi (e - 52))))"

text \<open>
  \<open>a / b\<close> on two Python integers is the correctly rounded quotient; it raises
  \<open>ZeroDivisionError\<close> for a zero divisor and \<open>OverflowError\<close> when the quotient is
  too large for a float.
\<close>

definition truediv :: "int \<Rightarrow> int \<Rightarrow> exn + rat" where
  "truediv a b =
     (if b = 0 then Inl (Exception ''ZeroDivisionError'')
      else case round_double (of_int a / of_int b) of
             None \<Rightarrow> Inl (Exception ''OverflowError'')
           | Some q \<Rightarrow> Inr q)"

text \<open>
  \<open>n * x\<close> on an integer and a float converts the integer to a float
  (\<open>OverflowError\<close> when it is too large) and multiplies in binary64; a product too
  large is the float infinity, on which \<open>int\<close> raises \<open>OverflowError\<close>.  \<open>int\<close> of a
  finite float truncates towards zero.
\<close>

datatype pyfloat = Finite rat | Infinity

definition int_mul_float :: "int \<Rightarrow> rat \<Rightarrow> exn + pyfloat" where
  "int_mul_float n x =
     (case round_double (of_int n) of
        None \<Rightarrow> Inl (Exception ''OverflowError'')
      | Some nf \<Rightarrow>
          (case round_double (nf * x) of
             None \<Rightarrow> Inr Infinity
           | Some y \<Rightarrow> Inr (Finite y)))"

fun int_of_float :: "pyfloat \<Rightarrow> exn + int" where
  "int_of_float (Finite x) = Inr (if 0 \<le> x then \<lfloor>x\<rfloor> else \<lceil>x\<rceil>)"
| "int_of_float Infinity = Inl (Exception ''OverflowError'')"

section \<open>The resizer: \<^verbatim>\<open>compress_images.py\<close> and \<^verbatim>\<open>compress_ultra.py\<close>\<close>

subsection \<open>The imaging library and the filesystem\<close>

text \<open>
  Pillow and the filesystem are collaborators outside the repository.  They are a
  parameter of the model: a record of functions over an image type \<open>'img\<close> and a
  filesystem state \<open>'fs\<close>.  Every operation may raise.  \<open>image_save\<close> returns the
  filesystem it leaves behind together with the exception it raised, if any.
  \<open>scandir\<close> lists the names of a directory in the order the operating system yields
  them, and \<open>case_sensitive\<close> tells whether \<open>Path.glob\<close> compares names exactly (POSIX)
  or up to letter case (Windows).
\<close>

record save_kwargs =
  format :: string
  quality :: int
  optimize :: bool
  progressive :: "bool option"
  subsampling :: "int option"
  qtables :: "string option"

record ('img, 'fs) pillow =
  image_open :: "'fs \<Rightarrow> string \<Rightarrow> exn + 'img"
  image_mode :: "'img \<Rightarrow> string"
  image_size :: "'img \<Rightarrow> int \<times> int"
  image_convert :: "'img \<Rightarrow> string \<Rightarrow> exn + 'img"
  image_resize :: "'img \<Rightarrow> int \<times> int \<Rightarrow> exn + 'img"
  image_save :: "'fs \<Rightarrow> 'img \<Rightarrow> string \<Rightarrow> save_kwargs \<Rightarrow> 'fs \<times> exn option"
  getsize :: "'fs \<Rightarrow> string \<Rightarrow> exn + int"
  path_exists :: "'fs \<Rightarrow> string \<Rightarrow> bool"
  scandir :: "'fs \<Rightarrow> string \<Rightarrow> string list"
  case_sensitive :: bool

text \<open>
  What a run does is observed in three places: the filesystem, the sequence of calls
  made to the collaborators, and the lines printed.  What is printed is recorded by the
  statement that prints it, with the values it interpolates; the banner lines at the
  start of a folder are one record.
\<close>

datatype call =
    GetSize string
  | Open string
  | Convert string
  | Resize "int \<times> int" string
  | Save string save_kwargs

datatype printed =
    ErrorProcessing string exn
  | FolderMissing string
  | NoJpgFound string
  | FolderStart string nat
  | Processing nat nat string
  | Done int int
  | DonePlain
  | ProgressReport nat nat int

record 'fs world =
  fs :: 'fs
  calls :: "call list"
  stdout :: "printed list"

type_synonym ('a, 'fs) prog = "'fs world \<Rightarrow> 'fs world \<times> (exn + 'a)"

definition returnp :: "'a \<Rightarrow> ('a, 'fs) prog" where
  "returnp x w = (w, Inr x)"

definition bindp :: "('a, 'fs) prog \<Rightarrow> ('a \<Rightarrow> ('b, 'fs) prog) \<Rightarrow> ('b, 'fs) prog" where
  "bindp m f w = (case m w of (w', Inl e) \<Rightarrow> (w', Inl e) | (w', Inr x) \<Rightarrow> f x w')"

definition liftp :: "exn + 'a \<Rightarrow> ('a, 'fs) prog" where
  "liftp r w = (w, r)"

definition print_line :: "printed \<Rightarrow> (unit, 'fs) prog" where
  "print_line line w = (w\<lparr>stdout := stdout w @ [line]\<rparr>, Inr ())"

definition record_call :: "call \<Rightarrow> 'fs world \<Rightarrow> 'fs world" where
  "record_call c w = w\<lparr>calls := calls w @ [c]\<rparr>"

definition get_file_size :: "('img, 'fs) pillow \<Rightarrow> string \<Rightarrow> (int, 'fs) prog" where
  "get_file_size L filepath w = (record_call (GetSize filepath) w, getsize L (fs w) filepath)"

definition pil_open :: "('img, 'fs) pillow \<Rightarrow> string \<Rightarrow> ('img, 'fs) prog" where
  "pil_open L path w = (record_call (Open path) w, image_open L (fs w) path)"

definition pil_convert :: "('img, 'fs) pillow \<Rightarrow> 'img \<Rightarrow> string \<Rightarrow> ('img, 'fs) prog" where
  "pil_convert L img m w = (record_call (Convert m) w, image_convert L img m)"

definition pil_resize ::
  "('img, 'fs) pillow \<Rightarrow> 'img \<Rightarrow> int \<times> int \<Rightarrow> string \<Rightarrow> ('img, 'fs) prog" where
  "pil_resize L img sz resample w = (record_call (Resize sz resample) w, image_resize L img sz)"

definition pil_save ::
  "('img, 'fs) pillow \<Rightarrow> 'img \<Rightarrow> string \<Rightarrow> save_kwargs \<Rightarrow> (unit, 'fs) prog" where
  "pil_save L img path kw w =
     (case image_save L (fs w) img path kw of
        (fs', raised) \<Rightarrow>
          ((record_call (Save path kw) w)\<lparr>fs := fs'\<rparr>,
           case raised of None \<Rightarrow> Inr () | Some e \<Rightarrow> Inl e))"

subsection \<open>\<^verbatim>\<open>compress_image\<close> and \<^verbatim>\<open>compress_image_ultra\<close>\<close>

text \<open>
  Lines 62-64 of \<^verbatim>\<open>compress_images.py\<close> (57-59 of \<^verbatim>\<open>compress_ultra.py\<close>, the same
  text): the conversion to RGB.
\<close>

definition convert_stage :: "('img, 'fs) pillow \<Rightarrow> 'img \<Rightarrow> ('img, 'fs) prog" where
  "convert_stage L img =
     (if image_mode L img \<in> set [''RGBA'', ''P'']
      then pil_convert L img ''RGB''
      else returnp img)"

text \<open>
  Lines 70-77 (65-72 in the ultra script, the same text): the new dimensions, \<open>None\<close>
  when the image is within the bounds.
\<close>

definition new_dimensions :: "int \<times> int \<Rightarrow> int \<Rightarrow> int \<Rightarrow> exn + (int \<times> int) option" where
  "new_dimensions sz max_width max_height =
     (case sz of (original_width, original_height) \<Rightarrow>
        if original_width > max_width \<or> original_height > max_height then
          bind (truediv max_width original_width) (\<lambda>width_ratio.
          bind (truediv max_height original_height) (\<lambda>height_ratio.
          let scale_ratio = min width_ratio height_ratio in
          bind (bind (int_mul_float original_width scale_ratio) int_of_float) (\<lambda>new_width.
          bind (bind (int_mul_float original_height scale_ratio) int_of_float) (\<lambda>new_height.
          Inr (Some (new_width, new_height))))))
        else Inr None)"

text \<open>Lines 67-80 (62-75): the resize step.\<close>

definition resize_stage ::
  "('img, 'fs) pillow \<Rightarrow> 'img \<Rightarrow> int \<Rightarrow> int \<Rightarrow> ('img, 'fs) prog" where
  "resize_stage L img max_width max_height =
     bindp (liftp (new_dimensions (image_size L img) max_width max_height)) (\<lambda>d.
       case d of
         None \<Rightarrow> returnp img
       | Some new_size \<Rightarrow> pil_resize L img new_size ''LANCZOS'')"

definition standard_kwargs :: "int \<Rightarrow> save_kwargs" where
  "standard_kwargs q =
     \<lparr>format = ''JPEG'', quality = q, optimize = True,
      progressive = None, subsampling = None, qtables = None\<rparr>"

definition ultra_kwargs :: "int \<Rightarrow> bool \<Rightarrow> save_kwargs" where
  "ultra_kwargs q prog =
     \<lparr>format = ''JPEG'', quality = q, optimize = True,
      progressive = Some prog, subsampling = Some 0, qtables = Some ''web_low''\<rparr>"

text \<open>The body of the \<open>try\<close> block, lines 61-86 (56-91), with the keywords of the save.\<close>

definition try_block ::
  "('img, 'fs) pillow \<Rightarrow> string \<Rightarrow> string \<Rightarrow> int \<Rightarrow> int \<Rightarrow> save_kwargs \<Rightarrow> (int, 'fs) prog" where
  "try_block L input_path output_path max_width max_height kw =
     bindp (pil_open L input_path) (\<lambda>img0.
     bindp (convert_stage L img0) (\<lambda>img1.
     bindp (resize_stage L img1 max_width max_height) (\<lambda>img2.
     bindp (pil_save L img2 output_path kw) (\<lambda>_.
     get_file_size L output_path))))"

text \<open>
  The whole function: the original size is read before the \<open>try\<close>; the handler
  \<open>except Exception\<close> prints the error and returns the original size twice.
\<close>

definition compress_with ::
  "('img, 'fs) pillow \<Rightarrow> string \<Rightarrow> string option \<Rightarrow> int \<Rightarrow> int \<Rightarrow> save_kwargs
     \<Rightarrow> (int \<times> int, 'fs) prog" where
  "compress_with L input_path output_path0 max_width max_height kw =
     (let output_path = (case output_path0 of None \<Rightarrow> input_path | Some p \<Rightarrow> p) in
      bindp (get_file_size L input_path) (\<lambda>original_size w.
        case try_block L input_path output_path max_width max_height kw w of
          (w', Inr compressed_size) \<Rightarrow> (w', Inr (original_size, compressed_size))
        | (w', Inl (Exception e)) \<Rightarrow>
            (w'\<lparr>stdout := stdout w' @ [ErrorProcessing input_path (Exception e)]\<rparr>,
             Inr (original_size, original_size))
        | (w', Inl KeyboardInterrupt) \<Rightarrow> (w', Inl KeyboardInterrupt)))"

definition compress_image ::
  "('img, 'fs) pillow \<Rightarrow> string \<Rightarrow> string option \<Rightarrow> int \<Rightarrow> int \<Rightarrow> int
     \<Rightarrow> (int \<times> int, 'fs) prog" where
  "compress_image L input_path output_path max_width max_height q =
     compress_with L input_path output_path max_width max_height (standard_kwargs q)"

definition compress_image_ultra ::
  "('img, 'fs) pillow \<Rightarrow> string \<Rightarrow> string option \<Rightarrow> int \<Rightarrow> int \<Rightarrow> int \<Rightarrow> bool
     \<Rightarrow> (int \<times> int, 'fs) prog" where
  "compress_image_ultra L input_path output_path max_width max_height q prog =
     compress_with L input_path output_path max_width max_height (ultra_kwargs q prog)"

subsection \<open>\<^verbatim>\<open>compress_folder\<close> and \<^verbatim>\<open>compress_folder_ultra\<close>\<close>

text \<open>
  Strings are sequences of bytes (UTF-8).  \<open>lower\<close> maps the ASCII capitals to small
  letters; on the suffixes \<open>.jpg\<close> and \<open>.jpeg\<close>, the only place the scripts look at
  letter case, this is what \<open>str.lower\<close> does.
\<close>

definition lower_char :: "char \<Rightarrow> char" where
  "lower_char c =
     (if CHR ''A'' \<le> c \<and> c \<le> CHR ''Z'' then char_of (of_char c + (32 :: nat)) else c)"

definition lower :: "string \<Rightarrow> string" where
  "lower s = map lower_char s"

definition endswith :: "string \<Rightarrow> string \<Rightarrow> bool" where
  "endswith s suf = (length suf \<le> length s \<and> drop (length s - length suf) s = suf)"

text \<open>
  \<open>folder_path.glob("*" + ext)\<close>: the names of the directory that end with \<open>ext\<close>, in
  the order of the directory scan; letter case counts where the platform's paths are
  case sensitive.
\<close>

definition glob :: "('img, 'fs) pillow \<Rightarrow> 'fs \<Rightarrow> string \<Rightarrow> string \<Rightarrow> string list" where
  "glob L s folder ext =
     filter (\<lambda>name. if case_sensitive L then endswith name ext
                     else endswith (lower name) (lower ext))
       (scandir L s folder)"

text \<open>Lines 115-116 (111-112).\<close>

definition jpg_files :: "('img, 'fs) pillow \<Rightarrow> 'fs \<Rightarrow> string \<Rightarrow> string list" where
  "jpg_files L s folder =
     glob L s folder ''.jpg'' @ glob L s folder ''.jpeg''
       @ glob L s folder ''.JPG'' @ glob L s folder ''.JPEG''"

definition joinpath :: "string \<Rightarrow> string \<Rightarrow> string" where
  "joinpath folder name = folder @ ''/'' @ name"

text \<open>
  One round of the loop, lines 130-149 (127-152): \<open>compress\<close> is the call of
  \<open>compress_image\<close> or \<open>compress_image_ultra\<close> with the folder's parameters, \<open>ultra\<close>
  switches on the progress report of the ultra script, \<open>n\<close> is \<open>len(jpg_files)\<close>.
\<close>

definition folder_round ::
  "(string \<Rightarrow> (int \<times> int, 'fs) prog) \<Rightarrow> bool \<Rightarrow> string \<Rightarrow> nat \<Rightarrow> nat \<Rightarrow> string
     \<Rightarrow> int \<times> int \<times> nat \<Rightarrow> (int \<times> int \<times> nat, 'fs) prog" where
  "folder_round compress ultra folder n i name acc =
     (case acc of (total_original_size, total_compressed_size, processed_count) \<Rightarrow>
        bindp (print_line (Processing i n name)) (\<lambda>_.
        bindp (compress (joinpath folder name)) (\<lambda>(original_size, compressed_size).
        bindp (print_line (if original_size > 0 then Done original_size compressed_size
                           else DonePlain)) (\<lambda>_.
        bindp (if ultra \<and> i mod 100 = 0
               then print_line (ProgressReport i n
                      (total_original_size + original_size
                         - (total_compressed_size + compressed_size)))
               else returnp ()) (\<lambda>_.
        returnp (total_original_size + original_size,
                 total_compressed_size + compressed_size,
                 Suc processed_count))))))"

fun folder_loop ::
  "(string \<Rightarrow> (int \<times> int, 'fs) prog) \<Rightarrow> bool \<Rightarrow> string \<Rightarrow> nat \<Rightarrow> nat \<Rightarrow> string list
     \<Rightarrow> int \<times> int \<times> nat \<Rightarrow> (int \<times> int \<times> nat, 'fs) prog" where
  "folder_loop compress ultra folder n i [] acc w = (w, Inr acc)"
| "folder_loop compress ultra folder n i (name # rest) acc w =
     (case folder_round compress ultra folder n i name acc w of
        (w', Inl e) \<Rightarrow> (w', Inl e)
      | (w', Inr acc') \<Rightarrow> folder_loop compress ultra folder n (Suc i) rest acc' w')"

definition folder_with ::
  "('img, 'fs) pillow \<Rightarrow> (string \<Rightarrow> (int \<times> int, 'fs) prog) \<Rightarrow> bool \<Rightarrow> string
     \<Rightarrow> (int \<times> int \<times> nat, 'fs) prog" where
  "folder_with L compress ultra folder w =
     (if \<not> path_exists L (fs w) folder
      then (w\<lparr>stdout := stdout w @ [FolderMissing folder]\<rparr>, Inr (0, 0, 0))
      else let files = jpg_files L (fs w) folder in
        if files = []
        then (w\<lparr>stdout := stdout w @ [NoJpgFound folder]\<rparr>, Inr (0, 0, 0))
        else folder_loop compress ultra folder (length files) 1 files (0, 0, 0)
               (w\<lparr>stdout := stdout w @ [FolderStart folder (length files)]\<rparr>))"

definition compress_folder ::
  "('img, 'fs) pillow \<Rightarrow> string \<Rightarrow> int \<Rightarrow> int \<Rightarrow> int \<Rightarrow> (int \<times> int \<times> nat, 'fs) prog" where
  "compress_folder L folder_path max_width max_height q =
     folder_with L (\<lambda>p. compress_image L p None max_width max_height q) False folder_path"

definition compress_folder_ultra ::
  "('img, 'fs) pillow \<Rightarrow> string \<Rightarrow> int \<Rightarrow> int \<Rightarrow> int \<Rightarrow> (int \<times> int \<times> nat, 'fs) prog" where
  "compress_folder_ultra L folder_path max_width max_height q =
     folder_with L (\<lambda>p. compress_image_ultra L p None max_width max_height q True)
       True folder_path"

text \<open>The files a folder run hands to the per-file function, in order.\<close>

definition processed :: "'fs world \<Rightarrow> string list" where
  "processed w = concat (map (\<lambda>c. case c of Open p \<Rightarrow> [p] | _ \<Rightarrow> []) (calls w))"

subsection \<open>Facts of Pillow the claims refer to\<close>

text \<open>
  From Pillow's documentation of the JPEG writer: the keyword \<open>subsampling\<close> takes
  \<open>0\<close> for 4:4:4 (no chroma subsampling), \<open>1\<close> for 4:2:2 and \<open>2\<close> for 4:2:0.  From its
  list of modes: \<open>RGBA\<close>, \<open>LA\<close>, \<open>PA\<close>, \<open>RGBa\<close> and \<open>La\<close> carry an alpha channel,
  \<open>P\<close> and \<open>PA\<close> are palette modes.
\<close>

datatype chroma = Chroma444 | Chroma422 | Chroma420

definition subsampling_mode :: "int \<Rightarrow> chroma option" where
  "subsampling_mode k =
     (if k = 0 then Some Chroma444
      else if k = 1 then Some Chroma422
      else if k = 2 then Some Chroma420
      else None)"

definition has_alpha :: "string \<Rightarrow> bool" where
  "has_alpha m = (m \<in> set [''RGBA'', ''LA'', ''PA'', ''RGBa'', ''La''])"

definition is_palette :: "string \<Rightarrow> bool" where
  "is_palette m = (m \<in> set [''P'', ''PA''])"

section \<open>The renamer: \<^verbatim>\<open>rename_images.py\<close>\<close>

text \<open>
  The folder is a list of named entries with distinct names, in the order
  \<open>os.listdir\<close> yields them; an entry is a regular file with its content or a
  directory.  The model covers a prefix without a path separator: then source and
  target are names of this one folder, \<open>src == dst\<close> compares the names, and
  \<open>os.path.exists(dst)\<close> asks whether the folder has an entry of that name.
  \<open>os.rename\<close> may raise (a permission, a full disk); which renames do is the
  parameter \<open>deny\<close>.
\<close>

datatype 'a entry = RegularFile 'a | Directory

datatype rename_line =
    FolderNotFound
  | NoJpgFiles
  | SkippedExists string
  | Renamed string string
  | AllDone

record 'a rstate =
  entries :: "(string \<times> 'a entry) list"
  printed_lines :: "rename_line list"

text \<open>
  \<open>os.path.splitext\<close> on a name without separator: the extension starts at the last
  dot, unless only dots stand before it; then the extension is empty.
\<close>

definition splitext :: "string \<Rightarrow> string \<times> string" where
  "splitext p =
     (if CHR ''.'' \<in> set p then
        let root = rev (tl (dropWhile (\<lambda>c. c \<noteq> CHR ''.'') (rev p)));
            ext = CHR ''.'' # rev (takeWhile (\<lambda>c. c \<noteq> CHR ''.'') (rev p))
        in if list_ex (\<lambda>c. c \<noteq> CHR ''.'') root then (root, ext) else (p, [])
      else (p, []))"

text \<open>\<open>str(n)\<close> for a natural number and \<open>s.zfill(width)\<close> for a string without sign.\<close>

definition digit_char :: "nat \<Rightarrow> char" where
  "digit_char d = char_of (48 + d)"

fun str_nat :: "nat \<Rightarrow> string" where
  "str_nat n = (if n < 10 then [digit_char n] else str_nat (n div 10) @ [digit_char (n mod 10)])"

definition zfill :: "string \<Rightarrow> nat \<Rightarrow> string" where
  "zfill s width = replicate (width - length s) (CHR ''0'') @ s"

text \<open>Lines 42-44: the names of the regular files that end in \<open>.jpg\<close> or \<open>.jpeg\<close>.\<close>

definition is_regular :: "'a entry \<Rightarrow> bool" where
  "is_regular e = (case e of RegularFile _ \<Rightarrow> True | Directory \<Rightarrow> False)"

definition jpeg_name :: "string \<Rightarrow> bool" where
  "jpeg_name f = (endswith (lower f) ''.jpg'' \<or> endswith (lower f) ''.jpeg'')"

definition candidates :: "(string \<times> 'a entry) list \<Rightarrow> string list" where
  "candidates es = map fst (filter (\<lambda>(f, e). is_regular e \<and> jpeg_name f) es)"

text \<open>Lines 59-60.\<close>

definition new_name :: "string \<Rightarrow> nat \<Rightarrow> nat \<Rightarrow> string \<Rightarrow> string" where
  "new_name prefix digits idx filename =
     prefix @ zfill (str_nat idx) digits @ lower (snd (splitext filename))"

text \<open>
  The pairs of a file name and its new name that the loop goes through, lines 51-60:
  \<open>targets\<close> are the new names for \<open>enumerate(files, start=idx)\<close>, and the plan of a
  folder pairs its sorted JPEG file names with their new names.
\<close>

definition targets :: "string \<Rightarrow> nat \<Rightarrow> nat \<Rightarrow> string list \<Rightarrow> string list" where
  "targets prefix digits idx files =
     map (\<lambda>(i, filename). new_name prefix digits i filename)
       (zip [idx ..< idx + length files] files)"

definition rename_plan :: "string \<Rightarrow> (string \<times> 'a entry) list \<Rightarrow> (string \<times> string) list" where
  "rename_plan prefix es =
     (let files = sort (candidates es) in
      let total = length files in
      let digits = length (str_nat total) in
      zip files (targets prefix digits 1 files))"

text \<open>
  The folder in which every file of a plan has its new name, the other entries as
  they are: what a run is to leave behind when nothing stands in its way.
\<close>

definition apply_plan :: "(string \<times> string) list \<Rightarrow> (string \<times> 'a entry) list \<Rightarrow> (string \<times> 'a entry) list" where
  "apply_plan plan es =
     map (\<lambda>(f, e). (case map_of plan f of Some t \<Rightarrow> t | None \<Rightarrow> f, e)) es"

text \<open>
  \<open>os.rename(src, dst)\<close> replaces an entry that already has the name \<open>dst\<close> (the POSIX
  behaviour for files).
\<close>

definition os_rename :: "string \<Rightarrow> string \<Rightarrow> (string \<times> 'a entry) list \<Rightarrow> (string \<times> 'a entry) list" where
  "os_rename src dst es =
     map (\<lambda>(f, e). if f = src then (dst, e) else (f, e))
       (filter (\<lambda>(f, e). f \<noteq> dst \<or> f = src) es)"

text \<open>The loop of lines 58-74, from index \<open>idx\<close> on.\<close>

fun rename_loop ::
  "(string \<Rightarrow> string \<Rightarrow> exn option) \<Rightarrow> string \<Rightarrow> nat \<Rightarrow> nat \<Rightarrow> string list \<Rightarrow> 'a rstate
     \<Rightarrow> 'a rstate \<times> exn option" where
  "rename_loop deny prefix digits idx [] st = (st, None)"
| "rename_loop deny prefix digits idx (filename # rest) st =
     (let target = new_name prefix digits idx filename in
      if filename = target then rename_loop deny prefix digits (Suc idx) rest st
      else if target \<in> set (map fst (entries st)) then
        rename_loop deny prefix digits (Suc idx) rest
          (st\<lparr>printed_lines := printed_lines st @ [SkippedExists target]\<rparr>)
      else (case deny filename target of
              Some e \<Rightarrow> (st, Some e)
            | None \<Rightarrow>
                rename_loop deny prefix digits (Suc idx) rest
                  (st\<lparr>entries := os_rename filename target (entries st),
                      printed_lines := printed_lines st @ [Renamed filename target]\<rparr>)))"

text \<open>
  \<open>main\<close>: the folder is \<open>None\<close> when the path is no directory.  The result is the
  state left behind and the exit status of the process, or the exception that ended
  it.
\<close>

definition rename_main ::
  "(string \<Rightarrow> string \<Rightarrow> exn option) \<Rightarrow> string \<Rightarrow> (string \<times> 'a entry) list option
     \<Rightarrow> 'a rstate \<times> (exn + nat)" where
  "rename_main deny prefix folder =
     (case folder of
        None \<Rightarrow> (\<lparr>entries = [], printed_lines = [FolderNotFound]\<rparr>, Inr 1)
      | Some es \<Rightarrow>
          let files = candidates es in
          if files = [] then (\<lparr>entries = es, printed_lines = [NoJpgFiles]\<rparr>, Inr 0)
          else
            let files = sort files in
            let total = length files in
            let digits = length (str_nat total) in
            (case rename_loop deny prefix digits 1 files \<lparr>entries = es, printed_lines = []\<rparr> of
               (st, Some e) \<Rightarrow> (st, Inl e)
             | (st, None) \<Rightarrow> (st\<lparr>printed_lines := printed_lines st @ [AllDone]\<rparr>, Inr 0)))"

section \<open>A stand-in for the collaborators\<close>

text \<open>
  To run the model on concrete inputs: an image is its mode and its size, the
  filesystem lists paths with the image and the byte size stored there.  Resizing to an
  empty size and writing a mode JPEG cannot hold raise, as Pillow does.
\<close>

type_synonym toy_img = "string \<times> (int \<times> int)"

type_synonym toy_fs = "(string \<times> toy_img \<times> int) list"

definition toy_pillow :: "(toy_img, toy_fs) pillow" where
  "toy_pillow =
     \<lparr>image_open = (\<lambda>s p. case map_of s p of
                              None \<Rightarrow> Inl (Exception ''FileNotFoundError'')
                            | Some (img, n) \<Rightarrow> Inr img),
      image_mode = fst,
      image_size = snd,
      image_convert = (\<lambda>img m. Inr (m, snd img)),
      image_resize = (\<lambda>img sz. if fst sz < 1 \<or> snd sz < 1
                                 then Inl (Exception ''ValueError'')
                                 else Inr (fst img, sz)),
      image_save = (\<lambda>s img p kw.
                      if fst img \<in> set [''L'', ''RGB'', ''CMYK'']
                      then ((p, img, fst (snd img) * snd (snd img)) # s, None)
                      else (s, Some (Exception ''OSError''))),
      getsize = (\<lambda>s p. case map_of s p of
                           None \<Rightarrow> Inl (Exception ''FileNotFoundError'')
                         | Some (img, n) \<Rightarrow> Inr n),
      path_exists = (\<lambda>s folder. list_ex (\<lambda>p. take (length folder + 1) p = folder @ ''/'')
                                   (map fst s)),
      scandir = (\<lambda>s folder. map (drop (length folder + 1))
                               (filter (\<lambda>p. take (length folder + 1) p = folder @ ''/'')
                                  (remdups (map fst s)))),
      case_sensitive = True\<rparr>"

definition start :: "'fs \<Rightarrow> 'fs world" where
  "start s = \<lparr>fs = s, calls = [], stdout = []\<rparr>"

section \<open>Properties of the resizer\<close>

subsection \<open>The keywords of the ultra save\<close>

text \<open>
  Claim C5.  The ultra variant is to encode with progressive encoding on and with the
  chroma subsampling that saves most, 4:2:0; the comment at line 83 of
  \<^verbatim>\<open>compress_ultra.py\<close> says the same.  On a 1200x800 RGB image the function saves with
  \<open>subsampling = 0\<close>, which Pillow reads as 4:4:4, no chroma subsampling at all; 4:2:0
  is the value \<open>2\<close>.
\<close>

theorem ultra_saves_without_chroma_subsampling:
  "calls (fst (compress_image_ultra toy_pillow ''d/a.jpg'' None 400 400 40 True
            (start [(''d/a.jpg'', (''RGB'', (1200, 800)), 50000)])))
     = [GetSize ''d/a.jpg'', Open ''d/a.jpg'', Resize (400, 266) ''LANCZOS'',
        Save ''d/a.jpg'' (ultra_kwargs 40 True), GetSize ''d/a.jpg'']
   \<and> subsampling (ultra_kwargs 40 True) = Some 0
   \<and> subsampling_mode 0 = Some Chroma444
   \<and> subsampling_mode 2 = Some Chroma420"
  by code_simp

subsection \<open>The conversion to RGB\<close>

text \<open>
  The conversion step issues \<open>convert('RGB')\<close> for the modes \<open>RGBA\<close> and \<open>P\<close> and for
  no other mode.
\<close>

lemma convert_stage_calls:
  "convert_stage L img w = (w', r) \<Longrightarrow>
     calls w' = calls w @ (if image_mode L img = ''RGBA'' \<or> image_mode L img = ''P''
                           then [Convert ''RGB''] else [])"
  by (auto simp: convert_stage_def pil_convert_def returnp_def record_call_def split: if_splits)

text \<open>
  Claim C6.  Every image whose mode carries an alpha channel or is a palette mode is to
  be converted to RGB before it is encoded.  A grey image with alpha (mode \<open>LA\<close>) is not:
  no \<open>Convert\<close> call is made, the image goes to the JPEG writer as it is, the writer
  raises, and the file is left as it was.
\<close>

theorem grey_alpha_image_is_not_converted:
  "has_alpha ''LA''
   \<and> compress_image toy_pillow ''d/a.jpg'' None 600 600 60
         (start [(''d/a.jpg'', (''LA'', (300, 200)), 50000)])
     = (\<lparr>fs = [(''d/a.jpg'', (''LA'', (300, 200)), 50000)],
         calls = [GetSize ''d/a.jpg'', Open ''d/a.jpg'',
                  Save ''d/a.jpg'' (standard_kwargs 60)],
         stdout = [ErrorProcessing ''d/a.jpg'' (Exception ''OSError'')]\<rparr>,
        Inr (50000, 50000))"
  by code_simp

subsection \<open>The boundary of the error handler\<close>

text \<open>
  Claim C3, as stated: every error raised while \<open>compress_image\<close> processes a file is
  caught, so that no exception leaves the function.  It fails for the size read of line
  57, which stands before the \<open>try\<close>: for a path that cannot be read the exception
  leaves the function.
\<close>

theorem size_read_error_propagates:
  "compress_image toy_pillow ''d/gone.jpg'' None 600 600 60
     (start [(''d/a.jpg'', (''RGB'', (300, 200)), 50000)])
   = (\<lparr>fs = [(''d/a.jpg'', (''RGB'', (300, 200)), 50000)],
       calls = [GetSize ''d/gone.jpg''], stdout = []\<rparr>,
      Inl (Exception ''FileNotFoundError''))"
  by code_simp

text \<open>
  Claim C3, amended.  Once the size read before the \<open>try\<close> has returned \<open>n\<close>, the
  function returns a pair whose first component is \<open>n\<close>, or is interrupted from the
  keyboard: no exception derived from \<open>Exception\<close> leaves it.  When the \<open>try\<close> block
  raises such an exception, the function prints the error line with the path and the
  exception, returns \<open>(n, n)\<close> and leaves the filesystem and the calls as the block left
  them.  This holds for \<open>compress_image\<close> and \<open>compress_image_ultra\<close>, which are
  \<open>compress_with\<close> at their keywords.
\<close>

theorem compress_image_catches:
  assumes "getsize L (fs w) input_path = Inr n"
    and "compress_with L input_path output_path max_width max_height kw w = (w', r)"
  shows "((\<exists>m. r = Inr (n, m)) \<or> r = Inl KeyboardInterrupt)
     \<and> (\<forall>e w1. try_block L input_path (case output_path of None \<Rightarrow> input_path | Some p \<Rightarrow> p)
                   max_width max_height kw (record_call (GetSize input_path) w)
                 = (w1, Inl (Exception e))
           \<longrightarrow> r = Inr (n, n) \<and> fs w' = fs w1 \<and> calls w' = calls w1
               \<and> stdout w' = stdout w1 @ [ErrorProcessing input_path (Exception e)])"
  using assms
  by (auto simp: compress_with_def bindp_def get_file_size_def Let_def
           split: prod.splits sum.splits exn.splits)

theorem compress_image_catches_witness:
  "getsize toy_pillow (fs (start [(''d/a.jpg'', (''LA'', (300, 200)), 50000)])) ''d/a.jpg''
     = Inr 50000
   \<and> snd (compress_with toy_pillow ''d/a.jpg'' None 600 600 (standard_kwargs 60)
            (start [(''d/a.jpg'', (''LA'', (300, 200)), 50000)]))
     = Inr (50000, 50000)"
proof -
  let ?w = "start [(''d/a.jpg'', (''LA'', (300 :: int, 200 :: int)), 50000 :: int)]"
  let ?run = "compress_with toy_pillow ''d/a.jpg'' None 600 600 (standard_kwargs 60) ?w"
  have size_read: "getsize toy_pillow (fs ?w) ''d/a.jpg'' = Inr 50000"
    by code_simp
  have raised: "snd (try_block toy_pillow ''d/a.jpg'' ''d/a.jpg'' 600 600 (standard_kwargs 60)
                  (record_call (GetSize ''d/a.jpg'') ?w)) = Inl (Exception ''OSError'')"
    by code_simp
  have run: "?run = (fst ?run, snd ?run)"
    by simp
  from compress_image_catches [OF size_read run] raised
  have "snd ?run = Inr (50000, 50000)"
    by (cases "try_block toy_pillow ''d/a.jpg'' ''d/a.jpg'' 600 600 (standard_kwargs 60)
                 (record_call (GetSize ''d/a.jpg'') ?w)") auto
  with size_read show ?thesis by simp
qed

subsection \<open>The files of a folder run\<close>

lemma processed_record_call:
  "processed (record_call c w) = processed w @ (case c of Open p \<Rightarrow> [p] | _ \<Rightarrow> [])"
  by (simp add: processed_def record_call_def)

lemma processed_stdout [simp]: "processed (w\<lparr>stdout := x\<rparr>) = processed w"
  by (simp add: processed_def)

lemma processed_fs [simp]: "processed (w\<lparr>fs := x\<rparr>) = processed w"
  by (simp add: processed_def)

lemma processed_get_file_size:
  "get_file_size L p w = (w', r) \<Longrightarrow> processed w' = processed w"
  by (auto simp: get_file_size_def processed_record_call)

lemma processed_pil_open:
  "pil_open L p w = (w', r) \<Longrightarrow> processed w' = processed w @ [p]"
  by (auto simp: pil_open_def processed_record_call)

lemma processed_convert_stage:
  "convert_stage L img w = (w', r) \<Longrightarrow> processed w' = processed w"
  by (auto simp: convert_stage_def pil_convert_def returnp_def processed_record_call
           split: if_splits)

lemma processed_resize_stage:
  "resize_stage L img mw mh w = (w', r) \<Longrightarrow> processed w' = processed w"
  by (auto simp: resize_stage_def bindp_def liftp_def pil_resize_def returnp_def
                 processed_record_call
           split: sum.splits option.splits)

lemma processed_pil_save:
  "pil_save L img p kw w = (w', r) \<Longrightarrow> processed w' = processed w"
  by (auto simp: pil_save_def processed_record_call split: prod.splits)

lemma processed_try_block:
  assumes "try_block L p out mw mh kw w = (w', r)"
  shows "processed w' = processed w @ [p]"
proof -
  obtain w1 r1 where o: "pil_open L p w = (w1, r1)" by (cases "pil_open L p w")
  note p1 = processed_pil_open[OF o]
  show ?thesis
  proof (cases r1)
    case (Inl e)
    with assms o p1 show ?thesis by (simp add: try_block_def bindp_def)
  next
    case (Inr img0)
    obtain w2 r2 where c: "convert_stage L img0 w1 = (w2, r2)" by (cases "convert_stage L img0 w1")
    note p2 = processed_convert_stage[OF c]
    show ?thesis
    proof (cases r2)
      case (Inl e)
      with assms o Inr c p1 p2 show ?thesis by (simp add: try_block_def bindp_def)
    next
      case img1: (Inr img1)
      obtain w3 r3 where rs: "resize_stage L img1 mw mh w2 = (w3, r3)"
        by (cases "resize_stage L img1 mw mh w2")
      note p3 = processed_resize_stage[OF rs]
      show ?thesis
      proof (cases r3)
        case (Inl e)
        with assms o Inr c img1 rs p1 p2 p3 show ?thesis by (simp add: try_block_def bindp_def)
      next
        case img2: (Inr img2)
        obtain w4 r4 where sv: "pil_save L img2 out kw w3 = (w4, r4)"
          by (cases "pil_save L img2 out kw w3")
        note p4 = processed_pil_save[OF sv]
        show ?thesis
        proof (cases r4)
          case (Inl e)
          with assms o Inr c img1 rs img2 sv p1 p2 p3 p4 show ?thesis
            by (simp add: try_block_def bindp_def)
        next
          case u: (Inr u)
          obtain w5 r5 where g: "get_file_size L out w4 = (w5, r5)"
            by (cases "get_file_size L out w4")
          note p5 = processed_get_file_size[OF g]
          from assms o Inr c img1 rs img2 sv u g p1 p2 p3 p4 p5 show ?thesis
            by (simp add: try_block_def bindp_def)
        qed
      qed
    qed
  qed
qed

lemma processed_compress_with:
  assumes "compress_with L p out mw mh kw w = (w', Inr r)"
  shows "processed w' = processed w @ [p]"
proof -
  obtain w1 r1 where g: "get_file_size L p w = (w1, r1)" by (cases "get_file_size L p w")
  note p1 = processed_get_file_size[OF g]
  show ?thesis
  proof (cases r1)
    case (Inl e)
    with assms g show ?thesis by (simp add: compress_with_def bindp_def Let_def)
  next
    case (Inr n)
    obtain w2 r2 where t: "try_block L p (case out of None \<Rightarrow> p | Some x \<Rightarrow> x) mw mh kw w1 = (w2, r2)"
      by (cases "try_block L p (case out of None \<Rightarrow> p | Some x \<Rightarrow> x) mw mh kw w1")
    note p2 = processed_try_block[OF t]
    from assms g Inr t p1 p2 show ?thesis
      by (auto simp: compress_with_def bindp_def Let_def split: sum.splits exn.splits)
  qed
qed

lemma processed_folder_round:
  assumes "folder_round (\<lambda>p. compress_with L p out mw mh kw) ultra folder n i name acc w = (w', Inr acc')"
  shows "processed w' = processed w @ [joinpath folder name]"
  using assms
  by (auto simp: folder_round_def bindp_def print_line_def returnp_def
           split: prod.splits sum.splits if_splits dest!: processed_compress_with)

lemma processed_folder_loop:
  assumes "folder_loop (\<lambda>p. compress_with L p out mw mh kw) ultra folder n i names acc w = (w', Inr res)"
  shows "processed w' = processed w @ map (joinpath folder) names"
  using assms
proof (induction names arbitrary: i acc w)
  case Nil
  then show ?case by simp
next
  case (Cons name rest)
  obtain w1 r1 where rd: "folder_round (\<lambda>p. compress_with L p out mw mh kw) ultra folder n i name acc w = (w1, r1)"
    by (cases "folder_round (\<lambda>p. compress_with L p out mw mh kw) ultra folder n i name acc w")
  show ?case
  proof (cases r1)
    case (Inl e)
    with Cons.prems rd show ?thesis by simp
  next
    case (Inr acc')
    with Cons.prems rd have "folder_loop (\<lambda>p. compress_with L p out mw mh kw) ultra folder n (Suc i) rest acc' w1 = (w', Inr res)"
      by simp
    from Cons.IH[OF this] processed_folder_round[OF rd[unfolded Inr]] show ?thesis by simp
  qed
qed

lemma processed_folder_with:
  assumes "folder_with L (\<lambda>p. compress_with L p out mw mh kw) ultra folder w = (w', Inr res)"
    and "path_exists L (fs w) folder"
  shows "processed w' = processed w @ map (joinpath folder) (jpg_files L (fs w) folder)"
  using assms
  by (auto simp: folder_with_def Let_def split: if_splits dest!: processed_folder_loop)

lemma endswith_lower:
  "endswith name ext \<Longrightarrow> endswith (lower name) (lower ext)"
  by (auto simp: endswith_def lower_def drop_map)

lemma lower_literals:
  "lower ''.jpg'' = ''.jpg'' \<and> lower ''.jpeg'' = ''.jpeg''
   \<and> lower ''.JPG'' = ''.jpg'' \<and> lower ''.JPEG'' = ''.jpeg''"
  by code_simp

lemma jpg_files_sound:
  assumes "name \<in> set (jpg_files L s folder)"
  shows "name \<in> set (scandir L s folder) \<and> jpeg_name name"
proof -
  from assms have in_dir: "name \<in> set (scandir L s folder)"
    by (auto simp: jpg_files_def glob_def)
  from assms have "endswith (lower name) ''.jpg'' \<or> endswith (lower name) ''.jpeg''"
    using endswith_lower[of name "''.jpg''"] endswith_lower[of name "''.jpeg''"]
      endswith_lower[of name "''.JPG''"] endswith_lower[of name "''.JPEG''"]
    by (auto simp: jpg_files_def glob_def lower_literals split: if_splits)
  with in_dir show ?thesis by (simp add: jpeg_name_def)
qed

lemma jpg_files_complete:
  assumes "name \<in> set (scandir L s folder)"
    and "endswith name ''.jpg'' \<or> endswith name ''.jpeg''
         \<or> endswith name ''.JPG'' \<or> endswith name ''.JPEG''"
  shows "name \<in> set (jpg_files L s folder)"
  using assms endswith_lower[of name "''.jpg''"] endswith_lower[of name "''.jpeg''"]
      endswith_lower[of name "''.JPG''"] endswith_lower[of name "''.JPEG''"]
  by (auto simp: jpg_files_def glob_def lower_literals)


text \<open>
  Claim C4, as stated: the folder run processes exactly the files with a \<open>.jpg\<close> or
  \<open>.jpeg\<close> extension in any letter case, in ascending order of their names.  The run
  does not sort: a directory that lists \<open>b.jpg\<close> before \<open>a.jpg\<close> is processed in that
  order.
\<close>

theorem folder_order_not_sorted:
  "processed (fst (compress_folder toy_pillow ''d'' 600 600 60
      (start [(''d/b.jpg'', (''RGB'', (100, 100)), 500),
              (''d/a.jpg'', (''RGB'', (100, 100)), 500)])))
     = [''d/b.jpg'', ''d/a.jpg'']
   \<and> \<not> sorted [''d/b.jpg'', ''d/a.jpg'']"
  by code_simp

text \<open>
  The four patterns of lines 115-116 are all small or all capital letters; where
  names are case sensitive a file \<open>c.Jpg\<close> is not processed, though the renamer, which
  compares lower-cased names, takes it for a JPEG file.
\<close>

lemma mixed_case_extension_is_skipped:
  "jpeg_name ''c.Jpg''
   \<and> processed (fst (compress_folder toy_pillow ''d'' 600 600 60
      (start [(''d/c.Jpg'', (''RGB'', (100, 100)), 500),
              (''d/a.jpg'', (''RGB'', (100, 100)), 500)])))
     = [''d/a.jpg'']"
  by code_simp


text \<open>
  Claim C4, amended.  For an existing folder, \<open>compress_folder\<close> and
  \<open>compress_folder_ultra\<close> enumerate every name of the directory that ends in \<open>.jpg\<close>,
  \<open>.jpeg\<close>, \<open>.JPG\<close> or \<open>.JPEG\<close>; every name they enumerate is in the directory and
  ends in \<open>.jpg\<close> or \<open>.jpeg\<close> up to letter case; and a run that completes has
  processed the names in the order of the four scans one after the other, each in
  directory order, with no sorting.
\<close>

theorem folder_enumeration:
  assumes "path_exists L (fs w) folder"
  shows "(\<forall>name \<in> set (scandir L (fs w) folder).
            endswith name ''.jpg'' \<or> endswith name ''.jpeg''
              \<or> endswith name ''.JPG'' \<or> endswith name ''.JPEG''
            \<longrightarrow> name \<in> set (jpg_files L (fs w) folder))
     \<and> (\<forall>name \<in> set (jpg_files L (fs w) folder).
            name \<in> set (scandir L (fs w) folder) \<and> jpeg_name name)
     \<and> (\<forall>w' res. compress_folder L folder max_width max_height q w = (w', Inr res)
            \<or> compress_folder_ultra L folder max_width max_height q w = (w', Inr res)
          \<longrightarrow> processed w' = processed w @ map (joinpath folder)
                 (glob L (fs w) folder ''.jpg'' @ glob L (fs w) folder ''.jpeg''
                    @ glob L (fs w) folder ''.JPG'' @ glob L (fs w) folder ''.JPEG''))"
proof (intro conjI ballI allI impI)
  fix name
  assume "name \<in> set (scandir L (fs w) folder)"
    and "endswith name ''.jpg'' \<or> endswith name ''.jpeg''
           \<or> endswith name ''.JPG'' \<or> endswith name ''.JPEG''"
  then show "name \<in> set (jpg_files L (fs w) folder)"
    by (rule jpg_files_complete)
next
  fix name
  assume "name \<in> set (jpg_files L (fs w) folder)"
  then show "name \<in> set (scandir L (fs w) folder)" and "jpeg_name name"
    by (simp_all add: jpg_files_sound)
next
  fix w' res
  assume "compress_folder L folder max_width max_height q w = (w', Inr res)
            \<or> compress_folder_ultra L folder max_width max_height q w = (w', Inr res)"
  then have "processed w' = processed w @ map (joinpath folder) (jpg_files L (fs w) folder)"
    using assms
    by (auto simp: compress_folder_def compress_folder_ultra_def compress_image_def
                   compress_image_ultra_def
             dest: processed_folder_with)
  then show "processed w' = processed w @ map (joinpath folder)
                 (glob L (fs w) folder ''.jpg'' @ glob L (fs w) folder ''.jpeg''
                    @ glob L (fs w) folder ''.JPG'' @ glob L (fs w) folder ''.JPEG'')"
    by (simp add: jpg_files_def)
qed

theorem folder_enumeration_witness:
  "path_exists toy_pillow
       (fs (start [(''d/b.jpg'', (''RGB'', (100, 100)), 500),
                   (''d/a.JPG'', (''RGB'', (100, 100)), 500)])) ''d''
   \<and> processed (fst (compress_folder toy_pillow ''d'' 600 600 60
         (start [(''d/b.jpg'', (''RGB'', (100, 100)), 500),
                 (''d/a.JPG'', (''RGB'', (100, 100)), 500)])))
       = [''d/b.jpg'', ''d/a.JPG'']"
proof -
  let ?w = "start [(''d/b.jpg'', (''RGB'', (100 :: int, 100 :: int)), 500 :: int),
                   (''d/a.JPG'', (''RGB'', (100, 100)), 500)]"
  let ?run = "compress_folder toy_pillow ''d'' 600 600 60 ?w"
  have folder: "path_exists toy_pillow (fs ?w) ''d''"
    by code_simp
  have completes: "snd ?run = Inr (1000, 20000, 2)"
    by code_simp
  then have run: "?run = (fst ?run, Inr (1000, 20000, 2))"
    by (metis prod.collapse)
  have scans: "processed ?w @ map (joinpath ''d'')
                 (glob toy_pillow (fs ?w) ''d'' ''.jpg'' @ glob toy_pillow (fs ?w) ''d'' ''.jpeg''
                    @ glob toy_pillow (fs ?w) ''d'' ''.JPG'' @ glob toy_pillow (fs ?w) ''d'' ''.JPEG'')
               = [''d/b.jpg'', ''d/a.JPG'']"
    by code_simp
  from folder_enumeration [OF folder, of 600 600 60] run scans
  have "processed (fst ?run) = [''d/b.jpg'', ''d/a.JPG'']"
    by metis
  with folder show ?thesis by simp
qed

subsection \<open>Rounding in the size arithmetic\<close>

text \<open>
  The scale factor and the new dimensions are computed in binary64.  The lemmas below
  bound the rounding: \<open>ilog2\<close> is the binary exponent, rounding a number of the normal
  range changes it by at most the fraction \<open>2 ^ -53\<close> of itself, integers below
  \<open>2 ^ 53\<close> are floats.
\<close>

lemma powi_add2: "(2::rat) powi (a + b) = 2 powi a * 2 powi b"
  by (simp add: power_int_add)

lemma powi_diff2: "(2::rat) powi (a - b) = 2 powi a / 2 powi b"
  by (simp add: power_int_diff)

lemma ilog2_bounds:
  assumes "0 < x"
  shows "2 powi (ilog2 x) \<le> x \<and> x < 2 powi (ilog2 x + 1)"
proof -
  obtain p q where pq: "quotient_of x = (p, q)" by (cases "quotient_of x")
  have q: "0 < q" using quotient_of_denom_pos[OF pq] .
  have x: "x = of_int p / of_int q" using quotient_of_div[OF pq] .
  have p: "0 < p" using assms q x by (simp add: zero_less_divide_iff)
  let ?bp = "bitlen p" and ?bq = "bitlen q"
  from bitlen_bounds[OF p] have p1: "2 ^ nat (?bp - 1) \<le> p" and p2: "p < 2 ^ nat ?bp" by auto
  from bitlen_bounds[OF q] have q1: "2 ^ nat (?bq - 1) \<le> q" and q2: "q < 2 ^ nat ?bq" by auto
  have bp: "1 \<le> ?bp" using p by (simp add: bitlen_alt_def)
  have bq: "1 \<le> ?bq" using q by (simp add: bitlen_alt_def)
  have P1: "(2::rat) powi (?bp - 1) \<le> of_int p"
  proof -
    have "(2::rat) powi (?bp - 1) = of_int (2 ^ nat (?bp - 1))"
      using bp by (simp add: power_int_nonneg_exp)
    also have "\<dots> \<le> of_int p" using p1 by (simp only: of_int_le_iff)
    finally show ?thesis .
  qed
  have P2: "of_int p < (2::rat) powi ?bp"
  proof -
    have "(of_int p :: rat) < of_int (2 ^ nat ?bp)" using p2 by (simp only: of_int_less_iff)
    also have "\<dots> = 2 powi ?bp" using bp by (simp add: power_int_nonneg_exp)
    finally show ?thesis .
  qed
  have Q1: "(2::rat) powi (?bq - 1) \<le> of_int q"
  proof -
    have "(2::rat) powi (?bq - 1) = of_int (2 ^ nat (?bq - 1))"
      using bq by (simp add: power_int_nonneg_exp)
    also have "\<dots> \<le> of_int q" using q1 by (simp only: of_int_le_iff)
    finally show ?thesis .
  qed
  have Q2: "of_int q < (2::rat) powi ?bq"
  proof -
    have "(of_int q :: rat) < of_int (2 ^ nat ?bq)" using q2 by (simp only: of_int_less_iff)
    also have "\<dots> = 2 powi ?bq" using bq by (simp add: power_int_nonneg_exp)
    finally show ?thesis .
  qed
  have qpos: "(0::rat) < of_int q" using q by simp
  let ?e0 = "?bp - ?bq"
  have upper: "x < 2 powi (?e0 + 1)"
  proof -
    have "x < 2 powi ?bp / of_int q"
      unfolding x using P2 qpos by (simp add: divide_strict_right_mono)
    also have "\<dots> \<le> 2 powi ?bp / 2 powi (?bq - 1)"
      using Q1 qpos by (intro divide_left_mono mult_pos_pos) simp_all
    also have "\<dots> = 2 powi (?bp - (?bq - 1))"
      by (simp only: powi_diff2)
    also have "?bp - (?bq - 1) = ?e0 + 1"
      by simp
    finally show ?thesis .
  qed
  have lower: "2 powi (?e0 - 1) < x"
  proof -
    have "?e0 - 1 = ?bp - 1 - ?bq"
      by simp
    then have "(2::rat) powi (?e0 - 1) = 2 powi (?bp - 1) / 2 powi ?bq"
      by (simp only: powi_diff2)
    also have "\<dots> < 2 powi (?bp - 1) / of_int q"
      using Q2 qpos by (intro divide_strict_left_mono) simp_all
    also have "\<dots> \<le> x"
      unfolding x using P1 qpos by (simp add: divide_right_mono)
    finally show ?thesis .
  qed
  show ?thesis
  proof (cases "2 powi ?e0 \<le> x")
    case True
    then have "ilog2 x = ?e0" by (simp add: ilog2_def pq)
    with True upper show ?thesis by simp
  next
    case False
    then have "ilog2 x = ?e0 - 1" by (simp add: ilog2_def pq)
    with False lower show ?thesis by simp
  qed
qed

lemma ilog2_less:
  assumes "0 < x" and "x < 2 powi k"
  shows "ilog2 x < k"
proof (rule ccontr)
  assume "\<not> ilog2 x < k"
  then have "(2::rat) powi k \<le> 2 powi ilog2 x"
    by (intro power_int_increasing) simp_all
  with ilog2_bounds[OF assms(1)] assms(2) show False by simp
qed

lemma ilog2_ge:
  assumes "2 powi k \<le> x"
  shows "k \<le> ilog2 x"
proof (rule ccontr)
  assume "\<not> k \<le> ilog2 x"
  then have "(2::rat) powi (ilog2 x + 1) \<le> 2 powi k"
    by (intro power_int_increasing) simp_all
  moreover have "(0::rat) < 2 powi k" by simp
  with assms have "0 < x" by linarith
  ultimately show False using ilog2_bounds[of x] assms by simp
qed

lemma round_half_even_error:
  "\<bar>of_int (round_half_even m) - m\<bar> \<le> 1 / 2"
proof -
  have "of_int \<lfloor>m\<rfloor> \<le> m" "m < of_int \<lfloor>m\<rfloor> + 1" by linarith+
  then show ?thesis
    by (auto simp: round_half_even_def Let_def)
qed

lemma round_half_even_of_int:
  "round_half_even (of_int k) = k"
  by (simp add: round_half_even_def)

lemma round_double_positive:
  assumes "0 < x" and "- 1022 \<le> ilog2 x"
  shows "round_double x =
     (if 1024 \<le> ilog2 x \<or> (ilog2 x = 1023 \<and> 2 ^ 53 \<le> round_half_even (x / 2 powi (ilog2 x - 52)))
      then None
      else Some (of_int (round_half_even (x / 2 powi (ilog2 x - 52))) * 2 powi (ilog2 x - 52)))"
  using assms by (auto simp: round_double_def Let_def max_def)

lemma round_double_rel_error:
  assumes "2 powi (- 1022) \<le> x" and "round_double x = Some y"
  shows "\<bar>y - x\<bar> \<le> x / 2 ^ 53"
proof -
  have "(0::rat) < 2 powi (- 1022)" by simp
  with assms(1) have xpos: "0 < x" by linarith
  let ?e = "ilog2 x"
  let ?u = "(2::rat) powi (?e - 52)"
  let ?n = "round_half_even (x / ?u)"
  have e: "- 1022 \<le> ?e" using assms(1) by (rule ilog2_ge)
  have upos: "0 < ?u" by simp
  from assms(2) have y: "y = of_int ?n * ?u"
    by (simp add: round_double_positive[OF xpos e] split: if_splits)
  have "\<bar>of_int ?n - x / ?u\<bar> \<le> 1 / 2" by (rule round_half_even_error)
  then have "\<bar>of_int ?n - x / ?u\<bar> * ?u \<le> 1 / 2 * ?u"
    using upos by (intro mult_right_mono) simp_all
  moreover have "\<bar>of_int ?n - x / ?u\<bar> * ?u = \<bar>of_int ?n * ?u - x\<bar>"
  proof -
    have "\<bar>of_int ?n - x / ?u\<bar> * ?u = \<bar>(of_int ?n - x / ?u) * ?u\<bar>"
      using upos by (simp add: abs_mult)
    also have "(of_int ?n - x / ?u) * ?u = of_int ?n * ?u - x"
      using upos by (simp add: field_simps)
    finally show ?thesis .
  qed
  ultimately have err: "\<bar>y - x\<bar> \<le> ?u / 2" by (simp add: y)
  have "?e - 52 = ?e - 53 + 1" by simp
  then have "?u = 2 powi (?e - 53) * 2" by (simp only: powi_add2) simp
  then have "?u / 2 = 2 powi ?e / 2 powi 53" by (simp add: powi_diff2)
  also have "\<dots> = 2 powi ?e / 2 ^ 53" by simp
  also have "\<dots> \<le> x / 2 ^ 53"
    using ilog2_bounds[OF xpos] by (simp add: divide_right_mono)
  finally show ?thesis using err by linarith
qed

lemma round_double_defined:
  assumes "0 < x" and "x < 2 powi 1023"
  shows "\<exists>y. round_double x = Some y"
proof -
  have "ilog2 x < 1023" using assms by (rule ilog2_less)
  with assms(1) show ?thesis
    by (simp add: round_double_def Let_def max_def)
qed

lemma round_double_of_int:
  assumes "0 \<le> n" and "n < 2 ^ 53"
  shows "round_double (of_int n) = Some (of_int n)"
proof (cases "n = 0")
  case True
  then show ?thesis by (simp add: round_double_def)
next
  case False
  let ?x = "of_int n :: rat"
  let ?e = "ilog2 ?x"
  from False assms have n1: "1 \<le> n" by simp
  then have xpos: "0 < ?x" by simp
  have "(2::rat) powi 0 \<le> ?x" using n1 by simp
  then have e0: "0 \<le> ?e" by (rule ilog2_ge)
  have "?x < of_int (2 ^ 53)" using assms(2) by (simp only: of_int_less_iff)
  then have "?x < 2 powi 53" by simp
  with xpos have e53: "?e < 53" by (rule ilog2_less)
  define k where "k = nat (52 - ?e)"
  have u: "(2::rat) powi (?e - 52) = 1 / 2 ^ k"
  proof -
    have "?e - 52 = - int k" using e53 by (simp add: k_def)
    then show ?thesis by (simp add: power_int_minus_divide)
  qed
  have "?x / 2 powi (?e - 52) = of_int (n * 2 ^ k)"
    by (simp add: u)
  then have n': "round_half_even (?x / 2 powi (?e - 52)) = n * 2 ^ k"
    by (simp only: round_half_even_of_int)
  have "of_int (n * 2 ^ k) * (2::rat) powi (?e - 52) = ?x"
    by (simp add: u)
  with e0 e53 xpos n' show ?thesis
    by (simp add: round_double_positive)
qed

lemma floor_near:
  fixes y v :: rat and D k :: int
  assumes "0 < D" and "of_int D * y = of_int k" and "\<bar>v - y\<bar> < 1 / of_int D"
  shows "\<lfloor>v\<rfloor> = \<lfloor>y\<rfloor> \<or> (y = of_int \<lfloor>y\<rfloor> \<and> \<lfloor>v\<rfloor> = \<lfloor>y\<rfloor> - 1)"
proof -
  define j where "j = k - D * \<lfloor>y\<rfloor>"
  have Dpos: "(0::rat) < of_int D" using assms(1) by simp
  have fl: "of_int \<lfloor>y\<rfloor> \<le> y" "y < of_int \<lfloor>y\<rfloor> + 1" by linarith+
  have j: "of_int j = of_int D * (y - of_int \<lfloor>y\<rfloor>)"
    using assms(2) by (simp add: j_def algebra_simps)
  have frac: "y - of_int \<lfloor>y\<rfloor> = of_int j / of_int D"
    using Dpos j by (simp add: field_simps)
  have "(0::rat) \<le> of_int j" unfolding j using fl Dpos by simp
  then have j0: "0 \<le> j" by simp
  have "of_int D * (y - of_int \<lfloor>y\<rfloor>) < of_int D * 1" using fl Dpos
    by (intro mult_strict_left_mono) simp_all
  then have "(of_int j :: rat) < of_int D" by (simp add: j)
  then have jD: "j < D" by simp
  have inv: "1 / (of_int D :: rat) \<le> 1" using assms(1) by simp
  show ?thesis
  proof (cases "j = 0")
    case True
    with frac have yint: "y = of_int \<lfloor>y\<rfloor>" by simp
    from assms(3) inv have "y - 1 < v" "v < y + 1" by linarith+
    then have lo: "of_int (\<lfloor>y\<rfloor> - 1) \<le> v" and hi: "v < of_int (\<lfloor>y\<rfloor> + 1)"
      using yint by simp_all
    have "\<lfloor>y\<rfloor> - 1 \<le> \<lfloor>v\<rfloor>"
      using lo by (rule iffD2[OF le_floor_iff])
    moreover have "\<lfloor>v\<rfloor> < \<lfloor>y\<rfloor> + 1"
      using hi by (rule iffD2[OF floor_less_iff])
    ultimately have "\<lfloor>v\<rfloor> = \<lfloor>y\<rfloor> \<or> \<lfloor>v\<rfloor> = \<lfloor>y\<rfloor> - 1" by linarith
    with yint show ?thesis by blast
  next
    case False
    with j0 jD have "1 \<le> j" "j + 1 \<le> D" by simp_all
    then have "(1::rat) \<le> of_int j" "(of_int j :: rat) + 1 \<le> of_int D"
      by linarith+
    then have "1 / of_int D \<le> y - of_int \<lfloor>y\<rfloor>" "y - of_int \<lfloor>y\<rfloor> \<le> 1 - 1 / of_int D"
      unfolding frac using Dpos by (simp_all add: field_simps)
    with assms(3) have "of_int \<lfloor>y\<rfloor> \<le> v" "v < of_int \<lfloor>y\<rfloor> + 1" by linarith+
    then have "\<lfloor>v\<rfloor> = \<lfloor>y\<rfloor>" by (simp add: floor_unique)
    then show ?thesis by simp
  qed
qed

lemma min_close:
  fixes r1 r2 s1 s2 :: rat
  assumes "\<bar>s1 - r1\<bar> \<le> r1 / 2 ^ 53" and "\<bar>s2 - r2\<bar> \<le> r2 / 2 ^ 53"
  shows "\<bar>min s1 s2 - min r1 r2\<bar> \<le> min r1 r2 / 2 ^ 53"
proof -
  have c: "(2::rat) ^ 53 = 9007199254740992" by simp
  show ?thesis using assms unfolding c by linarith
qed

lemma scaled_close:
  fixes n D M :: int and s sf v :: rat
  assumes n: "0 < n" and D: "0 < D" and nD: "n * D < 2 ^ 51"
    and M1: "1 \<le> M" and M2: "M < 2 ^ 51"
    and s: "of_int n * of_int D * s = of_int M"
    and sf: "\<bar>sf - s\<bar> \<le> s / 2 ^ 53"
    and v: "round_double (of_int n * sf) = Some v"
  shows "(\<lfloor>v\<rfloor> = \<lfloor>of_int n * s\<rfloor>
           \<or> (of_int n * s = of_int \<lfloor>of_int n * s\<rfloor> \<and> \<lfloor>v\<rfloor> = \<lfloor>of_int n * s\<rfloor> - 1))
         \<and> 0 \<le> v \<and> \<bar>v - of_int n * s\<bar> \<le> 3 * (of_int n * s) / 2 ^ 53"
proof -
  define y where "y = of_int n * s"
  define t where "t = of_int n * sf"
  have npos: "(0::rat) < of_int n" and Dpos: "(0::rat) < of_int D" using n D by simp_all
  have Dy: "of_int D * y = of_int M" using s by (simp add: y_def mult.commute mult.left_commute)
  have y: "y = of_int M / of_int D" using Dy Dpos by (simp add: field_simps)
  have Mpos: "(1::rat) \<le> of_int M" using M1 by simp
  have ypos: "0 < y" unfolding y using Mpos Dpos by simp
  have "1 * D \<le> n * D" using n D by (intro mult_right_mono) simp_all
  with nD have "D < 2 ^ 51" by simp
  then have "(of_int D :: rat) < of_int (2 ^ 51)" by (simp only: of_int_less_iff)
  then have Dlt: "(of_int D :: rat) < 2 ^ 51" by simp
  have "1 / 2 ^ 51 < 1 / (of_int D :: rat)"
    using Dlt Dpos by (intro divide_strict_left_mono) simp_all
  also have "\<dots> \<le> y" unfolding y using Mpos Dpos by (simp add: divide_right_mono)
  finally have ylow: "1 / 2 ^ 51 < y" .
  have "t - y = of_int n * (sf - s)" by (simp add: t_def y_def algebra_simps)
  then have "\<bar>t - y\<bar> = of_int n * \<bar>sf - s\<bar>" using npos by (simp add: abs_mult)
  also have "\<dots> \<le> of_int n * (s / 2 ^ 53)" using sf npos by (intro mult_left_mono) simp_all
  also have "\<dots> = y / 2 ^ 53" by (simp add: y_def)
  finally have ty: "\<bar>t - y\<bar> \<le> y / 2 ^ 53" .
  have c: "(2::rat) ^ 53 = 9007199254740992" by simp
  have "y / 2 \<le> t" using ty ypos unfolding c by linarith
  moreover have "(2::rat) powi (- 1022) \<le> 1 / 2 ^ 52" by (simp add: power_int_minus_divide)
  ultimately have "2 powi (- 1022) \<le> t" using ylow by simp
  then have "\<bar>v - t\<bar> \<le> t / 2 ^ 53"
    using v unfolding t_def by (rule round_double_rel_error)
  with ty ypos have vy: "\<bar>v - y\<bar> \<le> 3 * y / 2 ^ 53" and v0: "0 \<le> v"
    unfolding c by linarith+
  have "(of_int M :: rat) < of_int (2 ^ 51)" using M2 by (simp only: of_int_less_iff)
  then have "(of_int M :: rat) < 2 ^ 51" by simp
  then have "3 * of_int M / 2 ^ 53 < (1::rat)" by simp
  then have "3 * of_int M / 2 ^ 53 / of_int D < 1 / (of_int D :: rat)"
    using Dpos by (intro divide_strict_right_mono)
  moreover have "3 * y / 2 ^ 53 = 3 * of_int M / 2 ^ 53 / (of_int D :: rat)"
    by (simp add: y)
  ultimately have "\<bar>v - y\<bar> < 1 / of_int D" using vy by linarith
  from floor_near[OF D Dy this] v0 vy show ?thesis by (simp add: y_def)
qed

lemma scaled_defined:
  fixes n D M :: int and s sf :: rat
  assumes n: "0 < n" and D: "0 < D"
    and M1: "1 \<le> M" and M2: "M < 2 ^ 51"
    and s: "of_int n * of_int D * s = of_int M"
    and sf: "\<bar>sf - s\<bar> \<le> s / 2 ^ 53"
  shows "\<exists>v. round_double (of_int n * sf) = Some v"
proof -
  define y where "y = of_int n * s"
  define t where "t = of_int n * sf"
  have npos: "(0::rat) < of_int n" and Dpos: "(0::rat) < of_int D" using n D by simp_all
  have Dy: "of_int D * y = of_int M" using s by (simp add: y_def mult.commute mult.left_commute)
  have y: "y = of_int M / of_int D" using Dy Dpos by (simp add: field_simps)
  have Mpos: "(1::rat) \<le> of_int M" using M1 by simp
  have ypos: "0 < y" unfolding y using Mpos Dpos by simp
  have "(1::rat) \<le> of_int D" using D by simp
  then have "of_int M / of_int D \<le> (of_int M :: rat) / 1"
    using Mpos by (intro divide_left_mono) simp_all
  moreover have "(of_int M :: rat) < of_int (2 ^ 51)" using M2 by (simp only: of_int_less_iff)
  ultimately have yhigh: "y < 2 ^ 51" by (simp add: y)
  have "t - y = of_int n * (sf - s)" by (simp add: t_def y_def algebra_simps)
  then have "\<bar>t - y\<bar> = of_int n * \<bar>sf - s\<bar>" using npos by (simp add: abs_mult)
  also have "\<dots> \<le> of_int n * (s / 2 ^ 53)" using sf npos by (intro mult_left_mono) simp_all
  also have "\<dots> = y / 2 ^ 53" by (simp add: y_def)
  finally have ty: "\<bar>t - y\<bar> \<le> y / 2 ^ 53" .
  have c: "(2::rat) ^ 53 = 9007199254740992" by simp
  have "0 < t" "t \<le> 2 * y" using ty ypos unfolding c by linarith+
  moreover have "(2::rat) ^ 52 < 2 powi 1023" by simp
  ultimately have "0 < t" "t < 2 powi 1023" using yhigh by simp_all
  then show ?thesis unfolding t_def by (rule round_double_defined)
qed

lemma new_dimensions_Some:
  assumes "new_dimensions (W, H) a b = Inr (Some (nw, nh))"
    and "1 \<le> W" "W < 2 ^ 53" "1 \<le> H" "H < 2 ^ 53"
  shows "(a < W \<or> b < H)
    \<and> (\<exists>s1 s2 vw vh.
          round_double (of_int a / of_int W) = Some s1
        \<and> round_double (of_int b / of_int H) = Some s2
        \<and> round_double (of_int W * min s1 s2) = Some vw
        \<and> round_double (of_int H * min s1 s2) = Some vh
        \<and> nw = (if 0 \<le> vw then \<lfloor>vw\<rfloor> else \<lceil>vw\<rceil>)
        \<and> nh = (if 0 \<le> vh then \<lfloor>vh\<rfloor> else \<lceil>vh\<rceil>))"
proof -
  have W: "round_double (of_int W) = Some (of_int W)"
    using assms by (intro round_double_of_int) simp_all
  have H: "round_double (of_int H) = Some (of_int H)"
    using assms by (intro round_double_of_int) simp_all
  from assms(1) have cond: "a < W \<or> b < H"
    by (auto simp: new_dimensions_def split: if_splits)
  with assms(1) obtain s1 where s1: "round_double (of_int a / of_int W) = Some s1"
    by (cases "round_double (of_int a / of_int W)")
       (auto simp: new_dimensions_def bind_def truediv_def split: if_splits)
  from cond assms(1) s1 assms(2) obtain s2 where s2: "round_double (of_int b / of_int H) = Some s2"
    by (cases "round_double (of_int b / of_int H)")
       (auto simp: new_dimensions_def bind_def truediv_def split: if_splits)
  from cond assms(1,2,4) s1 s2 W obtain vw where vw: "round_double (of_int W * min s1 s2) = Some vw"
    by (cases "round_double (of_int W * min s1 s2)")
       (auto simp: new_dimensions_def bind_def truediv_def int_mul_float_def Let_def split: if_splits)
  from cond assms(1,2,4) s1 s2 W H vw obtain vh where vh: "round_double (of_int H * min s1 s2) = Some vh"
    by (cases "round_double (of_int H * min s1 s2)")
       (auto simp: new_dimensions_def bind_def truediv_def int_mul_float_def Let_def split: if_splits)
  from cond assms(1,2,4) s1 s2 W H vw vh
  have "nw = (if 0 \<le> vw then \<lfloor>vw\<rfloor> else \<lceil>vw\<rceil>)" "nh = (if 0 \<le> vh then \<lfloor>vh\<rfloor> else \<lceil>vh\<rceil>)"
    by (auto simp: new_dimensions_def bind_def truediv_def int_mul_float_def Let_def split: if_splits)
  with cond s1 s2 vw vh show ?thesis by blast
qed

lemma exact_scale:
  fixes W H a b :: int
  assumes "1 \<le> W" and "1 \<le> H"
  shows "of_int W * of_int H * min (of_int a / of_int W) (of_int b / of_int H)
           = (of_int (min (a * H) (b * W)) :: rat)"
proof -
  have pos: "(0::rat) < of_int W" "(0::rat) < of_int H" using assms by simp_all
  then have "(0::rat) \<le> of_int W * of_int H" by simp
  then have "of_int W * of_int H * min (of_int a / of_int W) (of_int b / of_int H)
      = min (of_int W * of_int H * (of_int a / of_int W)) (of_int W * of_int H * (of_int b / of_int H :: rat))"
    by (simp only: min_mult_distrib_left if_True)
  also have "of_int W * of_int H * (of_int a / of_int W) = (of_int (a * H) :: rat)"
    using pos by simp
  also have "of_int W * of_int H * (of_int b / of_int H) = (of_int (b * W) :: rat)"
    using pos by simp
  finally show ?thesis by (simp add: of_int_min)
qed

lemma scale_setup:
  fixes W H a b :: int
  assumes W: "1 \<le> W" and H: "1 \<le> H" and WH: "W * H < 2 ^ 51"
    and a: "1 \<le> a" and b: "1 \<le> b" and cond: "a < W \<or> b < H"
    and s1: "round_double (of_int a / of_int W) = Some s1"
    and s2: "round_double (of_int b / of_int H) = Some s2"
  defines "s \<equiv> min (of_int a / of_int W) (of_int b / of_int H) :: rat"
  shows "\<exists>M. 1 \<le> M \<and> M < 2 ^ 51 \<and> of_int W * of_int H * s = of_int M
           \<and> \<bar>min s1 s2 - s\<bar> \<le> s / 2 ^ 53"
proof -
  have "W * 1 \<le> W * H" using W H by (intro mult_left_mono) simp_all
  with WH have W51: "W < 2 ^ 51" by simp
  have "1 * H \<le> W * H" using W H by (intro mult_right_mono) simp_all
  with WH have H51: "H < 2 ^ 51" by simp
  define M where "M = min (a * H) (b * W)"
  have sM: "of_int W * of_int H * s = of_int M"
    unfolding s_def M_def using W H by (rule exact_scale)
  have "1 * 1 \<le> a * H" using a H by (intro mult_mono) simp_all
  moreover have "1 * 1 \<le> b * W" using b W by (intro mult_mono) simp_all
  ultimately have M1: "1 \<le> M" by (simp add: M_def)
  have "M < W * H"
  proof -
    from cond show ?thesis
    proof
      assume "a < W"
      then have "a * H < W * H" using H by (intro mult_strict_right_mono) simp_all
      then show ?thesis by (simp add: M_def)
    next
      assume "b < H"
      then have "b * W < H * W" using W by (intro mult_strict_right_mono) simp_all
      then show ?thesis by (simp add: M_def mult.commute)
    qed
  qed
  with WH have M51: "M < 2 ^ 51" by simp
  have Wpos: "(0::rat) < of_int W" and Hpos: "(0::rat) < of_int H" using W H by simp_all
  have small: "(2::rat) powi (- 1022) \<le> 1 / 2 ^ 51" by (simp add: power_int_minus_divide)
  have "(of_int W :: rat) < of_int (2 ^ 51)" using W51 by (simp only: of_int_less_iff)
  then have Wlt: "(of_int W :: rat) < 2 ^ 51" by simp
  have "(of_int H :: rat) < of_int (2 ^ 51)" using H51 by (simp only: of_int_less_iff)
  then have Hlt: "(of_int H :: rat) < 2 ^ 51" by simp
  have "1 / 2 ^ 51 \<le> 1 / (of_int W :: rat)"
    using Wlt Wpos by (intro divide_left_mono) simp_all
  also have "\<dots> \<le> of_int a / of_int W"
    using a Wpos by (intro divide_right_mono) simp_all
  finally have "2 powi (- 1022) \<le> (of_int a / of_int W :: rat)" using small by linarith
  then have e1: "\<bar>s1 - of_int a / of_int W\<bar> \<le> (of_int a / of_int W) / 2 ^ 53"
    using s1 by (rule round_double_rel_error)
  have "1 / 2 ^ 51 \<le> 1 / (of_int H :: rat)"
    using Hlt Hpos by (intro divide_left_mono) simp_all
  also have "\<dots> \<le> of_int b / of_int H"
    using b Hpos by (intro divide_right_mono) simp_all
  finally have "2 powi (- 1022) \<le> (of_int b / of_int H :: rat)" using small by linarith
  then have e2: "\<bar>s2 - of_int b / of_int H\<bar> \<le> (of_int b / of_int H) / 2 ^ 53"
    using s2 by (rule round_double_rel_error)
  have "\<bar>min s1 s2 - s\<bar> \<le> s / 2 ^ 53"
    unfolding s_def using e1 e2 by (rule min_close)
  with M1 M51 sM show ?thesis by blast
qed

lemma new_dimensions_close:
  fixes W H a b nw nh :: int
  assumes W: "1 \<le> W" and H: "1 \<le> H" and WH: "W * H < 2 ^ 51"
    and a: "1 \<le> a" and b: "1 \<le> b"
    and run: "new_dimensions (W, H) a b = Inr (Some (nw, nh))"
  defines "s \<equiv> min (of_int a / of_int W) (of_int b / of_int H) :: rat"
  shows "(a < W \<or> b < H)
     \<and> (nw = \<lfloor>of_int W * s\<rfloor> \<or> (of_int W * s = of_int \<lfloor>of_int W * s\<rfloor> \<and> nw = \<lfloor>of_int W * s\<rfloor> - 1))
     \<and> (nh = \<lfloor>of_int H * s\<rfloor> \<or> (of_int H * s = of_int \<lfloor>of_int H * s\<rfloor> \<and> nh = \<lfloor>of_int H * s\<rfloor> - 1))"
proof -
  have "W * 1 \<le> W * H" using W H by (intro mult_left_mono) simp_all
  with WH have W53: "W < 2 ^ 53" by simp
  have "1 * H \<le> W * H" using W H by (intro mult_right_mono) simp_all
  with WH have H53: "H < 2 ^ 53" by simp
  from new_dimensions_Some[OF run W W53 H H53]
  obtain s1 s2 vw vh where cond: "a < W \<or> b < H"
    and s1: "round_double (of_int a / of_int W) = Some s1"
    and s2: "round_double (of_int b / of_int H) = Some s2"
    and vw: "round_double (of_int W * min s1 s2) = Some vw"
    and vh: "round_double (of_int H * min s1 s2) = Some vh"
    and nw: "nw = (if 0 \<le> vw then \<lfloor>vw\<rfloor> else \<lceil>vw\<rceil>)"
    and nh: "nh = (if 0 \<le> vh then \<lfloor>vh\<rfloor> else \<lceil>vh\<rceil>)"
    by blast
  from scale_setup[OF W H WH a b cond s1 s2]
  obtain M where M1: "1 \<le> M" and M51: "M < 2 ^ 51"
    and sM: "of_int W * of_int H * s = of_int M"
    and sf: "\<bar>min s1 s2 - s\<bar> \<le> s / 2 ^ 53"
    unfolding s_def by blast
  from sM have sM': "of_int H * of_int W * s = of_int M"
    by (simp add: mult.commute)
  have W0: "0 < W" and H0: "0 < H" using W H by simp_all
  have HW: "H * W < 2 ^ 51" using WH by (simp add: mult.commute)
  note cw = scaled_close[OF W0 H0 WH M1 M51 sM sf vw]
  note ch = scaled_close[OF H0 W0 HW M1 M51 sM' sf vh]
  from cw nw have "nw = \<lfloor>vw\<rfloor>" by simp
  moreover from ch nh have "nh = \<lfloor>vh\<rfloor>" by simp
  ultimately show ?thesis using cond cw ch by simp
qed

lemma new_dimensions_total:
  fixes W H a b :: int
  assumes W: "1 \<le> W" and H: "1 \<le> H" and WH: "W * H < 2 ^ 51"
    and a: "1 \<le> a" and b: "1 \<le> b" and a': "a < 2 ^ 1023" and b': "b < 2 ^ 1023"
    and cond: "a < W \<or> b < H"
  shows "\<exists>nw nh. new_dimensions (W, H) a b = Inr (Some (nw, nh))"
proof -
  have "W * 1 \<le> W * H" using W H by (intro mult_left_mono) simp_all
  with WH have W53: "W < 2 ^ 53" by simp
  have "1 * H \<le> W * H" using W H by (intro mult_right_mono) simp_all
  with WH have H53: "H < 2 ^ 53" by simp
  have Wf: "round_double (of_int W) = Some (of_int W)"
    using W W53 by (intro round_double_of_int) simp_all
  have Hf: "round_double (of_int H) = Some (of_int H)"
    using H H53 by (intro round_double_of_int) simp_all
  have Wpos: "(1::rat) \<le> of_int W" and Hpos: "(1::rat) \<le> of_int H" using W H by simp_all
  have apos: "(1::rat) \<le> of_int a" and bpos: "(1::rat) \<le> of_int b" using a b by simp_all
  have "(of_int a :: rat) < of_int (2 ^ 1023)" using a' by (simp only: of_int_less_iff)
  then have alt: "(of_int a :: rat) < 2 powi 1023" by simp
  have "(of_int b :: rat) < of_int (2 ^ 1023)" using b' by (simp only: of_int_less_iff)
  then have blt: "(of_int b :: rat) < 2 powi 1023" by simp
  have "of_int a / of_int W \<le> (of_int a :: rat) / 1"
    using Wpos apos by (intro divide_left_mono) simp_all
  with alt have "(of_int a / of_int W :: rat) < 2 powi 1023" by simp
  moreover have "(0::rat) < of_int a / of_int W" using Wpos apos by simp
  ultimately obtain s1 where s1: "round_double (of_int a / of_int W) = Some s1"
    using round_double_defined by blast
  have "of_int b / of_int H \<le> (of_int b :: rat) / 1"
    using Hpos bpos by (intro divide_left_mono) simp_all
  with blt have "(of_int b / of_int H :: rat) < 2 powi 1023" by simp
  moreover have "(0::rat) < of_int b / of_int H" using Hpos bpos by simp
  ultimately obtain s2 where s2: "round_double (of_int b / of_int H) = Some s2"
    using round_double_defined by blast
  from scale_setup[OF W H WH a b cond s1 s2]
  obtain M where M1: "1 \<le> M" and M51: "M < 2 ^ 51"
    and sM: "of_int W * of_int H * min (of_int a / of_int W) (of_int b / of_int H) = (of_int M :: rat)"
    and sf: "\<bar>min s1 s2 - min (of_int a / of_int W) (of_int b / of_int H)\<bar>
               \<le> min (of_int a / of_int W) (of_int b / of_int H) / 2 ^ 53"
    by blast
  from sM have sM': "of_int H * of_int W * min (of_int a / of_int W) (of_int b / of_int H) = (of_int M :: rat)"
    by (simp add: mult.commute)
  have W0: "0 < W" and H0: "0 < H" and W1: "W \<noteq> 0" and H1: "H \<noteq> 0" using W H by simp_all
  from scaled_defined[OF W0 H0 M1 M51 sM sf]
  obtain vw where vw: "round_double (of_int W * min s1 s2) = Some vw" by blast
  from scaled_defined[OF H0 W0 M1 M51 sM' sf]
  obtain vh where vh: "round_double (of_int H * min s1 s2) = Some vh" by blast
  from cond s1 s2 Wf Hf vw vh W1 H1 show ?thesis
    by (simp add: new_dimensions_def bind_def truediv_def int_mul_float_def Let_def)
qed

lemma new_dimensions_within:
  "W \<le> a \<Longrightarrow> H \<le> b \<Longrightarrow> new_dimensions (W, H) a b = Inr None"
  by (simp add: new_dimensions_def)

subsection \<open>The new dimensions\<close>

lemma floor_cases_bounds:
  fixes y :: rat and n :: int
  assumes "n = \<lfloor>y\<rfloor> \<or> (y = of_int \<lfloor>y\<rfloor> \<and> n = \<lfloor>y\<rfloor> - 1)"
  shows "\<bar>of_int n - y\<bar> \<le> 1" and "n \<le> \<lfloor>y\<rfloor>" and "0 < y \<Longrightarrow> 0 \<le> n"
proof -
  have fl: "of_int \<lfloor>y\<rfloor> \<le> y" "y < of_int \<lfloor>y\<rfloor> + 1" by linarith+
  from assms fl show "\<bar>of_int n - y\<bar> \<le> 1" by auto
  from assms show "n \<le> \<lfloor>y\<rfloor>" by auto
  assume "0 < y"
  then have "0 \<le> \<lfloor>y\<rfloor>" by simp
  moreover have "0 < \<lfloor>y\<rfloor>" if "y = of_int \<lfloor>y\<rfloor>"
  proof -
    from that \<open>0 < y\<close> have "(0::rat) < of_int \<lfloor>y\<rfloor>" by simp
    then show ?thesis by (simp only: of_int_0_less_iff)
  qed
  ultimately show "0 \<le> n" using assms by auto
qed

lemma exact_scale_bounds:
  fixes W H a b :: int
  assumes "1 \<le> W" and "1 \<le> H" and "1 \<le> a" and "1 \<le> b"
  defines "s \<equiv> min (of_int a / of_int W) (of_int b / of_int H) :: rat"
  shows "0 < s" and "of_int W * s \<le> of_int a" and "of_int H * s \<le> of_int b"
proof -
  have pos: "(0::rat) < of_int W" "(0::rat) < of_int H" "(0::rat) < of_int a" "(0::rat) < of_int b"
    using assms by simp_all
  then show "0 < s" by (simp add: s_def)
  have "of_int W * s \<le> of_int W * (of_int a / of_int W)"
    using pos by (intro mult_left_mono) (simp_all add: s_def)
  then show "of_int W * s \<le> of_int a" using pos by simp
  have "of_int H * s \<le> of_int H * (of_int b / of_int H)"
    using pos by (intro mult_left_mono) (simp_all add: s_def)
  then show "of_int H * s \<le> of_int b" using pos by simp
qed

text \<open>
  Claim C1, as stated: the new dimensions are \<open>floor(W * s)\<close> and \<open>floor(H * s)\<close> with
  \<open>s = min(max_width / W, max_height / H)\<close>.  For a 1109x800 image and bounds 600x600
  the exact values are 600 and 432; the code computes \<open>600 / 1109\<close> and the product with
  1109 in binary64, gets \<open>599.99999999999989\<close> and resizes to 599x432.
\<close>

theorem resize_dimensions_not_floor:
  "new_dimensions (1109, 800) 600 600 = Inr (Some (599, 432))
   \<and> \<lfloor>(1109 :: rat) * min (600 / 1109) (600 / 800)\<rfloor> = 600
   \<and> \<lfloor>(800 :: rat) * min (600 / 1109) (600 / 800)\<rfloor> = 432
   \<and> calls (fst (resize_stage toy_pillow (''RGB'', (1109, 800)) 600 600 (start [])))
       = [Resize (599, 432) ''LANCZOS'']"
  by code_simp

text \<open>
  Claim C1, amended.  For an image of at least 1x1 and fewer than \<open>2 ^ 51\<close> pixels and
  bounds from 1 to below \<open>2 ^ 1023\<close> (beyond that the division overflows): the resize
  step leaves the image alone, with no call, when \<open>W \<le> max_width\<close> and
  \<open>H \<le> max_height\<close>; otherwise it calls \<open>resize\<close> once, with a width that is
  \<open>floor(W * s)\<close>, or one less where \<open>W * s\<close> is a whole number, and a height that
  is \<open>floor(H * s)\<close>, or one less where \<open>H * s\<close> is a whole number.  A 1200x800 image
  with bounds 600x600 gets 600x400.
\<close>

theorem resize_dimensions:
  fixes W H max_width max_height :: int
  assumes "image_size L img = (W, H)" and "1 \<le> W" and "1 \<le> H" and "W * H < 2 ^ 51"
    and "1 \<le> max_width" and "1 \<le> max_height"
    and "max_width < 2 ^ 1023" and "max_height < 2 ^ 1023"
  defines "s \<equiv> min (of_int max_width / of_int W) (of_int max_height / of_int H) :: rat"
  shows "(W \<le> max_width \<and> H \<le> max_height \<longrightarrow>
            resize_stage L img max_width max_height w = (w, Inr img))
     \<and> (W > max_width \<or> H > max_height \<longrightarrow>
          (\<exists>nw nh.
              resize_stage L img max_width max_height w
                = (record_call (Resize (nw, nh) ''LANCZOS'') w, image_resize L img (nw, nh))
            \<and> (nw = \<lfloor>of_int W * s\<rfloor>
                 \<or> (of_int W * s = of_int \<lfloor>of_int W * s\<rfloor> \<and> nw = \<lfloor>of_int W * s\<rfloor> - 1))
            \<and> (nh = \<lfloor>of_int H * s\<rfloor>
                 \<or> (of_int H * s = of_int \<lfloor>of_int H * s\<rfloor> \<and> nh = \<lfloor>of_int H * s\<rfloor> - 1))))
     \<and> new_dimensions (1200, 800) 600 600 = Inr (Some (600, 400))"
proof (intro conjI impI)
  assume "W \<le> max_width \<and> H \<le> max_height"
  then have "new_dimensions (W, H) max_width max_height = Inr None"
    by (simp add: new_dimensions_within)
  then show "resize_stage L img max_width max_height w = (w, Inr img)"
    using assms(1) by (simp add: resize_stage_def bindp_def liftp_def returnp_def)
next
  assume "W > max_width \<or> H > max_height"
  then have cond: "max_width < W \<or> max_height < H" by simp
  from new_dimensions_total[OF assms(2,3,4,5,6,7,8) cond]
  obtain nw nh where run: "new_dimensions (W, H) max_width max_height = Inr (Some (nw, nh))"
    by blast
  from new_dimensions_close[OF assms(2,3,4,5,6) run]
  have "(nw = \<lfloor>of_int W * s\<rfloor>
           \<or> (of_int W * s = of_int \<lfloor>of_int W * s\<rfloor> \<and> nw = \<lfloor>of_int W * s\<rfloor> - 1))
      \<and> (nh = \<lfloor>of_int H * s\<rfloor>
           \<or> (of_int H * s = of_int \<lfloor>of_int H * s\<rfloor> \<and> nh = \<lfloor>of_int H * s\<rfloor> - 1))"
    unfolding s_def by simp
  moreover have "resize_stage L img max_width max_height w
                = (record_call (Resize (nw, nh) ''LANCZOS'') w, image_resize L img (nw, nh))"
    using run assms(1) by (simp add: resize_stage_def bindp_def liftp_def pil_resize_def)
  ultimately show "\<exists>nw nh.
              resize_stage L img max_width max_height w
                = (record_call (Resize (nw, nh) ''LANCZOS'') w, image_resize L img (nw, nh))
            \<and> (nw = \<lfloor>of_int W * s\<rfloor>
                 \<or> (of_int W * s = of_int \<lfloor>of_int W * s\<rfloor> \<and> nw = \<lfloor>of_int W * s\<rfloor> - 1))
            \<and> (nh = \<lfloor>of_int H * s\<rfloor>
                 \<or> (of_int H * s = of_int \<lfloor>of_int H * s\<rfloor> \<and> nh = \<lfloor>of_int H * s\<rfloor> - 1))"
    by blast
next
  show "new_dimensions (1200, 800) 600 600 = Inr (Some (600, 400))"
    by code_simp
qed

theorem resize_dimensions_witness:
  "image_size toy_pillow (''RGB'', (1109, 800)) = (1109, 800)
   \<and> resize_stage toy_pillow (''RGB'', (300, 200)) 600 600 (start [])
       = (start [], Inr (''RGB'', (300, 200)))
   \<and> (\<exists>nw nh. resize_stage toy_pillow (''RGB'', (1109, 800)) 600 600 (start [])
                  = (record_call (Resize (nw, nh) ''LANCZOS'') (start []),
                     image_resize toy_pillow (''RGB'', (1109, 800)) (nw, nh))
               \<and> (nw = 600 \<or> nw = 599) \<and> nh = 432)"
proof -
  let ?small = "(''RGB'', (300 :: int, 200 :: int))"
  let ?large = "(''RGB'', (1109 :: int, 800 :: int))"
  have small: "image_size toy_pillow ?small = (300, 200)"
    by (simp add: toy_pillow_def)
  have large: "image_size toy_pillow ?large = (1109, 800)"
    by (simp add: toy_pillow_def)
  have width: "\<lfloor>of_int 1109 * min (of_int 600 / of_int 1109) (of_int 600 / of_int 800) :: rat\<rfloor> = 600"
    by code_simp
  have height: "\<lfloor>of_int 800 * min (of_int 600 / of_int 1109) (of_int 600 / of_int 800) :: rat\<rfloor> = 432"
    by code_simp
  have fraction: "(of_int 800 * min (of_int 600 / of_int 1109) (of_int 600 / of_int 800) :: rat)
                    \<noteq> of_int 432"
    by code_simp
  have "resize_stage toy_pillow ?small 600 600 (start []) = (start [], Inr ?small)"
    using resize_dimensions [OF small, of 600 600 "start []"] by simp
  moreover have "\<exists>nw nh. resize_stage toy_pillow ?large 600 600 (start [])
                  = (record_call (Resize (nw, nh) ''LANCZOS'') (start []),
                     image_resize toy_pillow ?large (nw, nh))
               \<and> (nw = 600 \<or> nw = 599) \<and> nh = 432"
    using resize_dimensions [OF large, of 600 600 "start []"] width height fraction
    by (simp only: ) auto
  ultimately show ?thesis using large by simp
qed

text \<open>
  Claim C9.  Where resizing occurs, the new dimensions keep the aspect ratio up to one
  pixel in each dimension: the new width and the new height are each at most one
  pixel away from \<open>W * s\<close> and \<open>H * s\<close>, the sides of the rectangle of exactly the
  input's ratio, scaled by \<open>s = min(max_width / W, max_height / H)\<close>; in whole numbers,
  \<open>nw * H\<close> and \<open>nh * W\<close> differ by at most \<open>W + H\<close>.
\<close>

theorem aspect_ratio_within_one_pixel:
  fixes W H max_width max_height nw nh :: int
  assumes "1 \<le> W" and "1 \<le> H" and "W * H < 2 ^ 51"
    and "1 \<le> max_width" and "1 \<le> max_height"
    and "new_dimensions (W, H) max_width max_height = Inr (Some (nw, nh))"
  defines "s \<equiv> min (of_int max_width / of_int W) (of_int max_height / of_int H) :: rat"
  shows "\<bar>of_int nw - of_int W * s\<bar> \<le> 1 \<and> \<bar>of_int nh - of_int H * s\<bar> \<le> 1
     \<and> \<bar>nw * H - nh * W\<bar> \<le> W + H"
proof -
  note close = new_dimensions_close[OF assms(1-6), folded s_def]
  from close have w: "\<bar>of_int nw - of_int W * s\<bar> \<le> 1"
    by (intro floor_cases_bounds(1)) simp
  from close have h: "\<bar>of_int nh - of_int H * s\<bar> \<le> 1"
    by (intro floor_cases_bounds(1)) simp
  have Wpos: "(0::rat) \<le> of_int W" and Hpos: "(0::rat) \<le> of_int H" using assms by simp_all
  have "(of_int (nw * H - nh * W) :: rat)
          = (of_int nw - of_int W * s) * of_int H - (of_int nh - of_int H * s) * of_int W"
    by (simp add: algebra_simps)
  also have "\<bar>\<dots>\<bar> \<le> \<bar>(of_int nw - of_int W * s) * of_int H\<bar> + \<bar>(of_int nh - of_int H * s) * of_int W\<bar>"
    by (rule abs_triangle_ineq4)
  also have "\<dots> = \<bar>of_int nw - of_int W * s\<bar> * of_int H + \<bar>of_int nh - of_int H * s\<bar> * of_int W"
    using Wpos Hpos by (simp add: abs_mult)
  also have "\<dots> \<le> 1 * of_int H + 1 * of_int W"
    using w h Wpos Hpos by (intro add_mono mult_right_mono)
  finally have "\<bar>of_int (nw * H - nh * W) :: rat\<bar> \<le> of_int (W + H)"
    by (simp add: add.commute)
  then have "(of_int \<bar>nw * H - nh * W\<bar> :: rat) \<le> of_int (W + H)"
    by (simp only: of_int_abs)
  then have "\<bar>nw * H - nh * W\<bar> \<le> W + H"
    by (simp only: of_int_le_iff)
  with w h show ?thesis by simp
qed

theorem aspect_ratio_within_one_pixel_witness:
  "new_dimensions (1109, 800) 600 600 = Inr (Some (599, 432))
   \<and> \<bar>of_int 599 - of_int 1109 * min (of_int 600 / of_int 1109) (of_int 600 / of_int 800) :: rat\<bar> \<le> 1
   \<and> \<bar>of_int 432 - of_int 800 * min (of_int 600 / of_int 1109) (of_int 600 / of_int 800) :: rat\<bar> \<le> 1
   \<and> \<bar>599 * 800 - 432 * 1109 :: int\<bar> \<le> 1109 + 800"
proof -
  have run: "new_dimensions (1109, 800) 600 600 = Inr (Some (599, 432))"
    by code_simp
  have "(1 :: int) \<le> 1109" and "(1 :: int) \<le> 800" and "(1109 :: int) * 800 < 2 ^ 51"
    and "(1 :: int) \<le> 600"
    by simp_all
  from aspect_ratio_within_one_pixel [OF this(1,2,3,4,4) run] run
  show ?thesis by blast
qed

text \<open>
  Claim C10.  Where resizing occurs, the new width is at most \<open>max_width\<close> and the new
  height at most \<open>max_height\<close>, and neither is negative; but there is no lower clamp
  at 1: a 10000x1 image with bounds 600x600 gets the size \<open>(600, 0)\<close>, and
  \<open>resize\<close> is called with it.
\<close>

theorem dimensions_bounded_not_clamped:
  fixes W H max_width max_height nw nh :: int
  assumes "1 \<le> W" and "1 \<le> H" and "W * H < 2 ^ 51"
    and "1 \<le> max_width" and "1 \<le> max_height"
    and "new_dimensions (W, H) max_width max_height = Inr (Some (nw, nh))"
  shows "0 \<le> nw \<and> nw \<le> max_width \<and> 0 \<le> nh \<and> nh \<le> max_height
     \<and> new_dimensions (10000, 1) 600 600 = Inr (Some (600, 0))
     \<and> calls (fst (resize_stage toy_pillow (''RGB'', (10000, 1)) 600 600 (start [])))
         = [Resize (600, 0) ''LANCZOS'']"
proof -
  let ?s = "min (of_int max_width / of_int W) (of_int max_height / of_int H) :: rat"
  note close = new_dimensions_close[OF assms]
  note sb = exact_scale_bounds[OF assms(1,2,4,5)]
  have Wpos: "(0::rat) < of_int W" and Hpos: "(0::rat) < of_int H" using assms by simp_all
  have yw: "0 < of_int W * ?s" using sb(1) Wpos by simp
  have yh: "0 < of_int H * ?s" using sb(1) Hpos by simp
  from close have cw: "nw = \<lfloor>of_int W * ?s\<rfloor>
      \<or> (of_int W * ?s = of_int \<lfloor>of_int W * ?s\<rfloor> \<and> nw = \<lfloor>of_int W * ?s\<rfloor> - 1)"
    by simp
  from close have ch: "nh = \<lfloor>of_int H * ?s\<rfloor>
      \<or> (of_int H * ?s = of_int \<lfloor>of_int H * ?s\<rfloor> \<and> nh = \<lfloor>of_int H * ?s\<rfloor> - 1)"
    by simp
  have "\<lfloor>of_int W * ?s\<rfloor> \<le> \<lfloor>of_int max_width :: rat\<rfloor>" using sb(2) by (rule floor_mono)
  with floor_cases_bounds(2)[OF cw] have "nw \<le> max_width" by simp
  moreover have "\<lfloor>of_int H * ?s\<rfloor> \<le> \<lfloor>of_int max_height :: rat\<rfloor>" using sb(3) by (rule floor_mono)
  with floor_cases_bounds(2)[OF ch] have "nh \<le> max_height" by simp
  moreover have "0 \<le> nw" using floor_cases_bounds(3)[OF cw yw] .
  moreover have "0 \<le> nh" using floor_cases_bounds(3)[OF ch yh] .
  moreover have "new_dimensions (10000, 1) 600 600 = Inr (Some (600, 0))
     \<and> calls (fst (resize_stage toy_pillow (''RGB'', (10000, 1)) 600 600 (start [])))
         = [Resize (600, 0) ''LANCZOS'']"
    by code_simp
  ultimately show ?thesis by simp
qed

theorem dimensions_bounded_not_clamped_witness:
  "new_dimensions (10000, 1) 600 600 = Inr (Some (600, 0))
   \<and> (0 :: int) \<le> 600 \<and> (600 :: int) \<le> 600 \<and> (0 :: int) \<le> 0 \<and> (0 :: int) \<le> 600"
proof -
  have run: "new_dimensions (10000, 1) 600 600 = Inr (Some (600, 0))"
    by code_simp
  have "(1 :: int) \<le> 10000" and "(1 :: int) \<le> 1" and "(10000 :: int) * 1 < 2 ^ 51"
    and "(1 :: int) \<le> 600"
    by simp_all
  from dimensions_bounded_not_clamped [OF this(1,2,3,4,4) run] run
  show ?thesis by blast
qed

section \<open>Properties of the renamer\<close>

subsection \<open>No entry is overwritten\<close>

lemma os_rename_fresh:
  assumes "dst \<notin> set (map fst es)"
  shows "os_rename src dst es = map (\<lambda>(f, e). if f = src then (dst, e) else (f, e)) es"
proof -
  from assms have "filter (\<lambda>(f, e). f \<noteq> dst \<or> f = src) es = es"
    by (induction es) auto
  then show ?thesis by (simp add: os_rename_def)
qed


lemma os_rename_names:
  "dst \<notin> set (map fst es) \<Longrightarrow>
     map fst (os_rename src dst es) = map (\<lambda>f. if f = src then dst else f) (map fst es)"
  by (simp add: os_rename_fresh) (induction es, auto)









subsection \<open>The plan of new names\<close>

lemma targets_Nil [simp]: "targets prefix w idx [] = []"
  by (simp add: targets_def)

lemma targets_Cons [simp]:
  "targets prefix w idx (f # rest) = new_name prefix w idx f # targets prefix w (Suc idx) rest"
proof -
  have a: "[idx ..< Suc idx + length rest] = idx # [Suc idx ..< Suc idx + length rest]"
    by (rule upt_conv_Cons) simp
  have b: "idx + Suc (length rest) = Suc idx + length rest"
    by simp
  show ?thesis
    by (simp only: targets_def length_Cons a b zip_Cons_Cons list.map prod.case)
qed

lemma length_targets [simp]: "length (targets prefix w idx files) = length files"
  by (simp add: targets_def)

lemma targets_nth:
  "k < length files \<Longrightarrow> targets prefix w idx files ! k = new_name prefix w (idx + k) (files ! k)"
  by (simp add: targets_def)

lemma digit_value: "d < 10 \<Longrightarrow> of_char (digit_char d) = 48 + d"
  by (simp add: digit_char_def)

lemma zfill_str_nat_inj:
  assumes "zfill (str_nat m) w = zfill (str_nat n) w"
  shows "m = n"
proof -
  define val :: "string \<Rightarrow> nat" where
    "val = (\<lambda>s. foldl (\<lambda>a c. 10 * a + (of_char c - 48)) 0 s)"
  have snoc: "val (s @ [c]) = 10 * val s + (of_char c - 48)" for s c
    by (simp add: val_def)
  have zeros: "val (replicate k (CHR ''0'') @ s) = val s" for k s
  proof -
    have "foldl (\<lambda>a c. 10 * a + (of_char c - 48)) 0 (replicate k (CHR ''0'')) = (0::nat)"
      by (induction k) simp_all
    then show ?thesis by (simp add: val_def)
  qed
  have str: "val (str_nat k) = k" for k
  proof (induction k rule: str_nat.induct)
    case (1 k)
    show ?case
    proof (cases "k < 10")
      case True
      then show ?thesis by (simp add: val_def digit_value)
    next
      case False
      then have "str_nat k = str_nat (k div 10) @ [digit_char (k mod 10)]"
        by (subst str_nat.simps) simp
      with 1 False show ?thesis by (simp add: snoc digit_value del: str_nat.simps)
    qed
  qed
  have "val (zfill (str_nat k) w) = k" for k
    by (simp add: zfill_def zeros str del: str_nat.simps)
  with assms show ?thesis by metis
qed

lemma length_str_nat_mono:
  "m \<le> n \<Longrightarrow> length (str_nat m) \<le> length (str_nat n)"
proof (induction n arbitrary: m rule: str_nat.induct)
  case (1 n)
  show ?case
  proof (cases "n < 10")
    case True
    with 1(2) have "m < 10" by simp
    with True show ?thesis by simp
  next
    case False
    show ?thesis
    proof (cases "m < 10")
      case True
      then have "length (str_nat m) = 1" by simp
      moreover have "1 \<le> length (str_nat n)" by (subst str_nat.simps) simp
      ultimately show ?thesis by simp
    next
      case m: False
      from 1(2) have "m div 10 \<le> n div 10" by (rule div_le_mono)
      from 1(1)[OF False this] have "length (str_nat (m div 10)) \<le> length (str_nat (n div 10))" .
      moreover have "length (str_nat m) = Suc (length (str_nat (m div 10)))"
        using m by (subst str_nat.simps) simp
      moreover have "length (str_nat n) = Suc (length (str_nat (n div 10)))"
        using False by (subst str_nat.simps) simp
      ultimately show ?thesis by simp
    qed
  qed
qed

lemma length_zfill: "length (zfill s w) = max w (length s)"
  by (simp add: zfill_def)

lemma padding_width:
  "i \<le> n \<Longrightarrow> length (zfill (str_nat i) (length (str_nat n))) = length (str_nat n)"
  using length_str_nat_mono[of i n] by (simp add: length_zfill del: str_nat.simps)

lemma new_name_inj:
  assumes "new_name prefix (length (str_nat n)) i f = new_name prefix (length (str_nat n)) j g"
    and "i \<le> n" and "j \<le> n"
  shows "i = j"
proof -
  let ?w = "length (str_nat n)"
  from assms(1) have "zfill (str_nat i) ?w @ lower (snd (splitext f))
                        = zfill (str_nat j) ?w @ lower (snd (splitext g))"
    by (simp add: new_name_def del: str_nat.simps)
  moreover have "length (zfill (str_nat i) ?w) = length (zfill (str_nat j) ?w)"
    using assms(2,3) by (simp only: padding_width)
  ultimately have "zfill (str_nat i) ?w = zfill (str_nat j) ?w"
    by (simp del: str_nat.simps)
  then show ?thesis by (rule zfill_str_nat_inj)
qed

lemma distinct_targets:
  assumes "idx + length files \<le> Suc n"
  shows "distinct (targets prefix (length (str_nat n)) idx files)"
proof -
  {
    fix i j
    assume ij: "i < length files" "j < length files"
      and eq: "targets prefix (length (str_nat n)) idx files ! i
               = targets prefix (length (str_nat n)) idx files ! j"
    from ij eq have "new_name prefix (length (str_nat n)) (idx + i) (files ! i)
                   = new_name prefix (length (str_nat n)) (idx + j) (files ! j)"
      by (simp only: targets_nth)
    moreover from ij assms have "idx + i \<le> n" "idx + j \<le> n" by simp_all
    ultimately have "idx + i = idx + j" by (rule new_name_inj)
    then have "i = j" by simp
  }
  then show ?thesis by (auto simp: distinct_conv_nth simp del: str_nat.simps)
qed

lemma apply_plan_Nil [simp]: "apply_plan [] es = es"
  by (induction es) (auto simp: apply_plan_def)

lemma apply_plan_same:
  assumes "f \<notin> set (map fst plan)"
  shows "apply_plan ((f, f) # plan) es = apply_plan plan es"
proof -
  from assms have "map_of plan f = None" by (simp add: map_of_eq_None_iff)
  then show ?thesis by (auto simp: apply_plan_def)
qed

lemma apply_plan_rename:
  assumes "t \<notin> set (map fst plan)" and "t \<notin> set (map fst es)"
  shows "apply_plan ((f, t) # plan) es = apply_plan plan (os_rename f t es)"
proof -
  from assms(1) have none: "map_of plan t = None" by (simp add: map_of_eq_None_iff)
  have "apply_plan plan (map (\<lambda>(g, e). if g = f then (t, e) else (g, e)) es)
          = apply_plan ((f, t) # plan) es"
    using none by (auto simp: apply_plan_def)
  with assms(2) show ?thesis by (simp add: os_rename_fresh)
qed

lemma rename_loop_follows_plan:
  assumes "distinct files"
    and "set files \<subseteq> set (map fst (entries st))"
    and "distinct (targets prefix w idx files)"
    and "\<forall>(f, t) \<in> set (zip files (targets prefix w idx files)).
            t = f \<or> t \<notin> set (map fst (entries st))"
  shows "snd (rename_loop (\<lambda>src dst. None) prefix w idx files st) = None
       \<and> entries (fst (rename_loop (\<lambda>src dst. None) prefix w idx files st))
           = apply_plan (zip files (targets prefix w idx files)) (entries st)"
  using assms
proof (induction files arbitrary: idx st)
  case Nil
  then show ?case by simp
next
  case (Cons f rest)
  let ?t = "new_name prefix w idx f"
  let ?ts = "targets prefix w (Suc idx) rest"
  from Cons.prems have f_new: "f \<notin> set rest" and rest_distinct: "distinct rest"
    and rest_in: "set rest \<subseteq> set (map fst (entries st))"
    and t_new: "?t \<notin> set ?ts" and ts_distinct: "distinct ?ts"
    and head: "?t = f \<or> ?t \<notin> set (map fst (entries st))"
    and tail: "\<forall>(g, t) \<in> set (zip rest ?ts). t = g \<or> t \<notin> set (map fst (entries st))"
    by simp_all
  have f_plan: "f \<notin> set (map fst (zip rest ?ts))"
    using f_new by (auto dest: set_zip_leftD)
  show ?case
  proof (cases "?t = f")
    case True
    from Cons.IH[OF rest_distinct rest_in ts_distinct tail]
    have "snd (rename_loop (\<lambda>src dst. None) prefix w (Suc idx) rest st) = None
       \<and> entries (fst (rename_loop (\<lambda>src dst. None) prefix w (Suc idx) rest st))
           = apply_plan (zip rest ?ts) (entries st)" .
    with True f_plan show ?thesis
      by (simp add: Let_def apply_plan_same)
  next
    case False
    with head have fresh: "?t \<notin> set (map fst (entries st))" by simp
    let ?st = "st\<lparr>entries := os_rename f ?t (entries st),
                  printed_lines := printed_lines st @ [Renamed f ?t]\<rparr>"
    have names: "set (map fst (entries ?st)) \<subseteq> insert ?t (set (map fst (entries st)))"
      using fresh by (auto simp: os_rename_names)
    have rest_in': "set rest \<subseteq> set (map fst (entries ?st))"
    proof
      fix g assume g: "g \<in> set rest"
      then have "g \<noteq> f" using f_new by auto
      moreover from g rest_in have "g \<in> set (map fst (entries st))" by auto
      ultimately show "g \<in> set (map fst (entries ?st))"
        using fresh by (auto simp: os_rename_names)
    qed
    have tail': "\<forall>(g, t) \<in> set (zip rest ?ts). t = g \<or> t \<notin> set (map fst (entries ?st))"
    proof -
      have "t = g \<or> t \<notin> set (map fst (entries ?st))"
        if gt: "(g, t) \<in> set (zip rest ?ts)" for g t
      proof (cases "t \<in> set (map fst (entries ?st))")
        case True
        from gt have "t \<in> set ?ts" by (rule set_zip_rightD)
        with t_new have "t \<noteq> ?t" by auto
        with True names have "t \<in> set (map fst (entries st))" by auto
        with tail gt show ?thesis by auto
      next
        case False
        then show ?thesis by simp
      qed
      then show ?thesis by blast
    qed
    have t_plan: "?t \<notin> set (map fst (zip rest ?ts))"
      using fresh rest_in by (auto dest: set_zip_leftD)
    from Cons.IH[OF rest_distinct rest_in' ts_distinct tail']
    have "snd (rename_loop (\<lambda>src dst. None) prefix w (Suc idx) rest ?st) = None
       \<and> entries (fst (rename_loop (\<lambda>src dst. None) prefix w (Suc idx) rest ?st))
           = apply_plan (zip rest ?ts) (os_rename f ?t (entries st))"
      by simp
    with False fresh show ?thesis
      by (simp add: Let_def apply_plan_rename[OF t_plan fresh])
  qed
qed

lemma candidates_set:
  "set (candidates es) = {f. \<exists>e. (f, e) \<in> set es \<and> is_regular e \<and> jpeg_name f}"
  by (auto simp: candidates_def intro: rev_image_eqI)

lemma candidates_distinct:
  "distinct (map fst es) \<Longrightarrow> distinct (candidates es)"
  by (simp add: candidates_def distinct_map_filter)

lemma candidates_subset:
  "set (candidates es) \<subseteq> set (map fst es)"
  by (auto simp: candidates_def)

lemma rename_plan_fst:
  "map fst (rename_plan prefix es) = sort (candidates es)"
  by (simp add: rename_plan_def Let_def del: str_nat.simps)

lemma rename_plan_snd:
  "map snd (rename_plan prefix es)
     = targets prefix (length (str_nat (length (candidates es)))) 1 (sort (candidates es))"
  by (simp add: rename_plan_def Let_def del: str_nat.simps)

lemma rename_plan_length:
  "length (rename_plan prefix es) = length (candidates es)"
  by (simp add: rename_plan_def Let_def del: str_nat.simps)

lemma rename_plan_nth:
  assumes "k < length (candidates es)"
  shows "rename_plan prefix es ! k
           = (sort (candidates es) ! k,
              new_name prefix (length (str_nat (length (candidates es)))) (Suc k)
                (sort (candidates es) ! k))"
  using assms by (simp add: rename_plan_def Let_def targets_nth del: str_nat.simps)

lemma bij_betw_zip:
  assumes len: "length xs = length ys" and dx: "distinct xs" and dy: "distinct ys"
  shows "bij_betw (\<lambda>x. the (map_of (zip xs ys) x)) (set xs) (set ys)"
proof -
  have fwd: "the (map_of (zip xs ys) (xs ! i)) = ys ! i" if "i < length xs" for i
    using that len dx by (simp add: map_of_zip_nth)
  show ?thesis
    unfolding bij_betw_def
  proof
    show "inj_on (\<lambda>x. the (map_of (zip xs ys) x)) (set xs)"
    proof (rule inj_onI)
      fix a b
      assume "a \<in> set xs" "b \<in> set xs"
        and eq: "the (map_of (zip xs ys) a) = the (map_of (zip xs ys) b)"
      then obtain i j where i: "i < length xs" "a = xs ! i" and j: "j < length xs" "b = xs ! j"
        by (auto simp: in_set_conv_nth)
      with eq fwd have "ys ! i = ys ! j" by simp
      with i j len dy have "i = j" by (simp add: nth_eq_iff_index_eq)
      with i j show "a = b" by simp
    qed
    show "(\<lambda>x. the (map_of (zip xs ys) x)) ` set xs = set ys"
    proof (intro set_eqI iffI)
      fix y assume "y \<in> (\<lambda>x. the (map_of (zip xs ys) x)) ` set xs"
      then obtain i where "i < length xs" "y = the (map_of (zip xs ys) (xs ! i))"
        by (auto simp: in_set_conv_nth)
      with fwd len show "y \<in> set ys" by simp
    next
      fix y assume "y \<in> set ys"
      then obtain i where "i < length ys" "y = ys ! i" by (auto simp: in_set_conv_nth)
      with fwd len have "y = the (map_of (zip xs ys) (xs ! i))" "xs ! i \<in> set xs" by simp_all
      then show "y \<in> (\<lambda>x. the (map_of (zip xs ys) x)) ` set xs" by blast
    qed
  qed
qed

lemma rename_main_follows_plan:
  assumes names: "distinct (map fst es)"
    and free: "\<forall>(f, t) \<in> set (rename_plan prefix es). t = f \<or> t \<notin> set (map fst es)"
  shows "entries (fst (rename_main (\<lambda>src dst. None) prefix (Some es)))
           = apply_plan (rename_plan prefix es) es
       \<and> snd (rename_main (\<lambda>src dst. None) prefix (Some es)) = Inr 0"
proof (cases "candidates es = []")
  case True
  then show ?thesis by (simp add: rename_main_def rename_plan_def)
next
  case False
  let ?files = "sort (candidates es)"
  let ?w = "length (str_nat (length ?files))"
  let ?st = "\<lparr>entries = es, printed_lines = []\<rparr> :: 'a rstate"
  let ?loop = "rename_loop (\<lambda>src dst. None) prefix ?w 1 ?files ?st"
  have plan: "rename_plan prefix es = zip ?files (targets prefix ?w 1 ?files)"
    by (simp add: rename_plan_def Let_def del: str_nat.simps)
  have d: "distinct ?files" using names by (simp add: candidates_distinct)
  have sub: "set ?files \<subseteq> set (map fst (entries ?st))"
    using candidates_subset[of es] by simp
  have dt: "distinct (targets prefix ?w 1 ?files)"
    by (rule distinct_targets) simp
  have fr: "\<forall>(f, t) \<in> set (zip ?files (targets prefix ?w 1 ?files)).
              t = f \<or> t \<notin> set (map fst (entries ?st))"
    using free unfolding plan by simp
  from rename_loop_follows_plan[OF d sub dt fr]
  have res: "snd ?loop = None" and ent: "entries (fst ?loop) = apply_plan (rename_plan prefix es) es"
    unfolding plan by simp_all
  obtain st r where l: "?loop = (st, r)" by (cases ?loop)
  with res ent have "r = None" "entries st = apply_plan (rename_plan prefix es) es" by simp_all
  with False l show ?thesis
    by (simp add: rename_main_def del: str_nat.simps)
qed

text \<open>
  What holds of the plan for every folder (its names distinct) and every prefix: the
  plan lists the names of the regular files whose lower-cased name ends in \<open>.jpg\<close>
  or \<open>.jpeg\<close>, in ascending order; the file at place \<open>k\<close> (counted from 0) gets the
  index \<open>k + 1\<close>, and its new name is the prefix, the index padded with zeros to the
  number of digits of the count \<open>N\<close>, which is then exactly that wide, and the
  lower-cased extension of the file name as \<open>os.path.splitext\<close> gives it, which
  need not be the suffix the filter matched.  The plan is
  a bijection of the source names and the target names.  When no target is the name of
  an entry of the folder other than its own source and no rename fails, the run leaves
  every planned file under its target and ends with status 0.  The three files
  \<open>b.jpg\<close>, \<open>a.JPEG\<close>, \<open>c.jpeg\<close> with prefix \<open>dog_\<close> get \<open>dog_1.jpeg\<close> for
  \<open>a.JPEG\<close>, \<open>dog_2.jpg\<close> and \<open>dog_3.jpeg\<close>.
\<close>

theorem rename_plan_bijection:
  fixes es :: "(string \<times> 'a entry) list"
  assumes "distinct (map fst es)"
  shows "map fst (rename_plan prefix es) = sort (candidates es)
     \<and> sorted (map fst (rename_plan prefix es))
     \<and> set (map fst (rename_plan prefix es))
         = {f. \<exists>e. (f, e) \<in> set es \<and> is_regular e \<and> jpeg_name f}
     \<and> (\<forall>k < length (rename_plan prefix es).
           snd (rename_plan prefix es ! k)
             = prefix
                 @ zfill (str_nat (Suc k)) (length (str_nat (length (rename_plan prefix es))))
                 @ lower (snd (splitext (fst (rename_plan prefix es ! k))))
           \<and> length (zfill (str_nat (Suc k)) (length (str_nat (length (rename_plan prefix es)))))
               = length (str_nat (length (rename_plan prefix es))))
     \<and> bij_betw (\<lambda>f. the (map_of (rename_plan prefix es) f))
         (set (map fst (rename_plan prefix es))) (set (map snd (rename_plan prefix es)))
     \<and> ((\<forall>(f, t) \<in> set (rename_plan prefix es). t = f \<or> t \<notin> set (map fst es)) \<longrightarrow>
           entries (fst (rename_main (\<lambda>src dst. None) prefix (Some es)))
             = apply_plan (rename_plan prefix es) es
           \<and> snd (rename_main (\<lambda>src dst. None) prefix (Some es)) = Inr 0)
     \<and> rename_plan ''dog_''
           [(''b.jpg'', RegularFile ()), (''a.JPEG'', RegularFile ()), (''c.jpeg'', RegularFile ())]
         = [(''a.JPEG'', ''dog_1.jpeg''), (''b.jpg'', ''dog_2.jpg''), (''c.jpeg'', ''dog_3.jpeg'')]"
proof (intro conjI allI impI)
  let ?plan = "rename_plan prefix es"
  let ?n = "length (candidates es)"
  show "map fst ?plan = sort (candidates es)"
    by (rule rename_plan_fst)
  show "sorted (map fst ?plan)"
    by (simp only: rename_plan_fst sorted_sort)
  show "set (map fst ?plan) = {f. \<exists>e. (f, e) \<in> set es \<and> is_regular e \<and> jpeg_name f}"
    by (simp only: rename_plan_fst set_sort candidates_set)
  have dx: "distinct (map fst ?plan)"
    using assms by (simp only: rename_plan_fst distinct_sort candidates_distinct)
  have dy: "distinct (map snd ?plan)"
    unfolding rename_plan_snd by (rule distinct_targets) simp
  from bij_betw_zip[OF _ dx dy]
  show "bij_betw (\<lambda>f. the (map_of ?plan f)) (set (map fst ?plan)) (set (map snd ?plan))"
    by (simp add: zip_map_fst_snd)
  show "rename_plan ''dog_''
           [(''b.jpg'', RegularFile ()), (''a.JPEG'', RegularFile ()), (''c.jpeg'', RegularFile ())]
         = [(''a.JPEG'', ''dog_1.jpeg''), (''b.jpg'', ''dog_2.jpg''), (''c.jpeg'', ''dog_3.jpeg'')]"
    by code_simp
next
  fix k
  assume "k < length (rename_plan prefix es)"
  then have k: "k < length (candidates es)"
    by (simp only: rename_plan_length)
  show "snd (rename_plan prefix es ! k)
          = prefix
              @ zfill (str_nat (Suc k)) (length (str_nat (length (rename_plan prefix es))))
              @ lower (snd (splitext (fst (rename_plan prefix es ! k))))"
    by (simp only: rename_plan_nth[OF k] rename_plan_length new_name_def fst_conv snd_conv)
  from k have "Suc k \<le> length (candidates es)" by simp
  then show "length (zfill (str_nat (Suc k)) (length (str_nat (length (rename_plan prefix es)))))
               = length (str_nat (length (rename_plan prefix es)))"
    by (simp only: rename_plan_length padding_width)
next
  assume "\<forall>(f, t) \<in> set (rename_plan prefix es). t = f \<or> t \<notin> set (map fst es)"
  with assms show "entries (fst (rename_main (\<lambda>src dst. None) prefix (Some es)))
             = apply_plan (rename_plan prefix es) es"
    and "snd (rename_main (\<lambda>src dst. None) prefix (Some es)) = Inr 0"
    by (simp_all only: rename_main_follows_plan)
qed

theorem rename_plan_bijection_witness:
  "distinct (map fst [(''b.jpg'', RegularFile (50000 :: int)), (''a.JPEG'', RegularFile 20000),
                      (''c.jpeg'', RegularFile 90000)])
   \<and> rename_plan ''dog_'' [(''b.jpg'', RegularFile (50000 :: int)), (''a.JPEG'', RegularFile 20000),
                            (''c.jpeg'', RegularFile 90000)]
       = [(''a.JPEG'', ''dog_1.jpeg''), (''b.jpg'', ''dog_2.jpg''), (''c.jpeg'', ''dog_3.jpeg'')]
   \<and> entries (fst (rename_main (\<lambda>src dst. None) ''dog_''
         (Some [(''b.jpg'', RegularFile (50000 :: int)), (''a.JPEG'', RegularFile 20000),
                (''c.jpeg'', RegularFile 90000)])))
       = [(''dog_2.jpg'', RegularFile 50000), (''dog_1.jpeg'', RegularFile 20000),
          (''dog_3.jpeg'', RegularFile 90000)]
   \<and> snd (rename_main (\<lambda>src dst. None) ''dog_''
         (Some [(''b.jpg'', RegularFile (50000 :: int)), (''a.JPEG'', RegularFile 20000),
                (''c.jpeg'', RegularFile 90000)]))
       = Inr 0"
proof -
  let ?es = "[(''b.jpg'', RegularFile (50000 :: int)), (''a.JPEG'', RegularFile 20000),
              (''c.jpeg'', RegularFile 90000)]"
  have names: "distinct (map fst ?es)"
    by code_simp
  have plan: "rename_plan ''dog_'' ?es
       = [(''a.JPEG'', ''dog_1.jpeg''), (''b.jpg'', ''dog_2.jpg''), (''c.jpeg'', ''dog_3.jpeg'')]"
    by code_simp
  have free: "\<forall>(f, t) \<in> set (rename_plan ''dog_'' ?es). t = f \<or> t \<notin> set (map fst ?es)"
    unfolding plan by simp
  have after: "apply_plan (rename_plan ''dog_'' ?es) ?es
       = [(''dog_2.jpg'', RegularFile 50000), (''dog_1.jpeg'', RegularFile 20000),
          (''dog_3.jpeg'', RegularFile 90000)]"
    unfolding plan by code_simp
  note run = rename_plan_bijection [OF names, of "''dog_''", THEN conjunct2, THEN conjunct2,
      THEN conjunct2, THEN conjunct2, THEN conjunct2, THEN conjunct1, THEN mp, OF free]
  from run after
  have "entries (fst (rename_main (\<lambda>src dst. None) ''dog_'' (Some ?es)))
          = [(''dog_2.jpg'', RegularFile 50000), (''dog_1.jpeg'', RegularFile 20000),
             (''dog_3.jpeg'', RegularFile 90000)]"
    and "snd (rename_main (\<lambda>src dst. None) ''dog_'' (Some ?es)) = Inr 0"
    by simp_all
  with names plan show ?thesis by blast
qed

subsection \<open>A file name that is only its extension\<close>

text \<open>
  Claim C2.  Every file the renamer counts as a JPEG file is to get the target made of
  the prefix, the padded index and its lower-cased JPEG extension.  The filter of line
  44 counts the file \<open>.jpg\<close>, whose lower-cased name ends in \<open>.jpg\<close>; line 59 takes
  its extension from \<open>os.path.splitext\<close>, which gives the empty string for a name
  with only dots before the last dot.  In the folder of \<open>.jpg\<close> and \<open>a.jpg\<close> with
  prefix \<open>dog_\<close> the file \<open>.jpg\<close> is planned and renamed to \<open>dog_1\<close>, a name
  without extension, where the claim and the docstring give \<open>dog_1.jpg\<close>.
\<close>

theorem counted_file_loses_its_extension:
  "jpeg_name ''.jpg''
   \<and> candidates [(''.jpg'', RegularFile ()), (''a.jpg'', RegularFile ())] = [''.jpg'', ''a.jpg'']
   \<and> splitext ''.jpg'' = (''.jpg'', [])
   \<and> rename_plan ''dog_'' [(''.jpg'', RegularFile ()), (''a.jpg'', RegularFile ())]
       = [(''.jpg'', ''dog_1''), (''a.jpg'', ''dog_2.jpg'')]
   \<and> ''dog_1'' \<noteq> ''dog_'' @ zfill (str_nat 1) 1 @ ''.jpg''
   \<and> \<not> jpeg_name ''dog_1''
   \<and> rename_main (\<lambda>src dst. None) ''dog_''
         (Some [(''.jpg'', RegularFile ()), (''a.jpg'', RegularFile ())])
       = (\<lparr>entries = [(''dog_1'', RegularFile ()), (''dog_2.jpg'', RegularFile ())],
           printed_lines = [Renamed ''.jpg'' ''dog_1'', Renamed ''a.jpg'' ''dog_2.jpg'', AllDone]\<rparr>,
          Inr 0)"
  by code_simp

subsection \<open>A second run\<close>

text \<open>
  Claim C7.  After a first run without collisions a second run with the same prefix is to
  leave the folder as it is.  The filter of line 44 takes the name \<open>.jpg\<close> for a JPEG
  file, while \<open>os.path.splitext\<close> gives it no extension: the first run renames the two
  files \<open>.jpg\<close> and \<open>a.jpg\<close> without collision to \<open>dog_1\<close> and \<open>dog_2.jpg\<close>; the
  second run finds one JPEG file and renames \<open>dog_2.jpg\<close> to \<open>dog_1.jpg\<close>.
\<close>

theorem second_rename_run_changes_folder:
  "rename_main (\<lambda>src dst. None) ''dog_''
       (Some [(''.jpg'', RegularFile (1 :: nat)), (''a.jpg'', RegularFile 2)])
     = (\<lparr>entries = [(''dog_1'', RegularFile 1), (''dog_2.jpg'', RegularFile 2)],
         printed_lines = [Renamed ''.jpg'' ''dog_1'', Renamed ''a.jpg'' ''dog_2.jpg'', AllDone]\<rparr>,
        Inr 0)
   \<and> rename_main (\<lambda>src dst. None) ''dog_''
       (Some [(''dog_1'', RegularFile (1 :: nat)), (''dog_2.jpg'', RegularFile 2)])
     = (\<lparr>entries = [(''dog_1'', RegularFile 1), (''dog_1.jpg'', RegularFile 2)],
         printed_lines = [Renamed ''dog_2.jpg'' ''dog_1.jpg'', AllDone]\<rparr>,
        Inr 0)"
  by code_simp

end
